theory Spec2Isabelle
  imports Main "HOL-Library.Sublist"
begin

section \<open>Python strings\<close>

text \<open>
  A Python \<open>str\<close> is a sequence of Unicode code points; \<open>len\<close> counts code points.
  String literals of the source are ASCII and are written as HOL strings, embedded
  by \<open>py\<close>.
\<close>

type_synonym codepoint = nat
type_synonym pystr = "codepoint list"

definition py :: "string \<Rightarrow> pystr" where
  "py s = map of_char s"

definition newline :: char where
  "newline = CHR 0x0A"

text \<open>
  \<open>str.upper()\<close> maps every code point through Unicode's full upper-case mapping, which
  may give several code points for one, and concatenates the results. The mapping table
  belongs to the Python runtime and is a parameter here.
\<close>

definition upper :: "(codepoint \<Rightarrow> pystr) \<Rightarrow> pystr \<Rightarrow> pystr" where
  "upper to_upper_full s = concat (map to_upper_full s)"

text \<open>
  The table for the code points below 256 (Basic Latin and Latin-1 Supplement): the small
  letters go to their capitals, the micro sign to GREEK CAPITAL LETTER MU, the sharp s to
  two capital S, and y with diaeresis to U+0178. Code points from 256 on are not tabulated
  here and are left as they are.
\<close>

definition upper_latin1 :: "codepoint \<Rightarrow> pystr" where
  "upper_latin1 c =
     (if 97 \<le> c \<and> c \<le> 122 then [c - 32]
      else if c = 181 then [924]
      else if c = 223 then [83, 83]
      else if 224 \<le> c \<and> c \<le> 254 \<and> c \<noteq> 247 then [c - 32]
      else if c = 255 then [376]
      else [c])"

text \<open>
  \<open>s.find(sub)\<close>: the lowest index at which \<open>sub\<close> occurs in \<open>s\<close>, or \<open>-1\<close>.
\<close>

fun find_from :: "pystr \<Rightarrow> pystr \<Rightarrow> int \<Rightarrow> int" where
  "find_from sub [] i = (if sub = [] then i else - 1)"
| "find_from sub (c # cs) i =
     (if prefix sub (c # cs) then i else find_from sub cs (i + 1))"

definition str_find :: "pystr \<Rightarrow> pystr \<Rightarrow> int" where
  "str_find s sub = find_from sub s 0"

section \<open>Section detection\<close>

record section_span =
  name :: string
  startIndex :: int
  detected :: bool
  endIndex :: "int option"

definition section_patterns :: "string list" where
  "section_patterns =
     [''CHIEF COMPLAINT'',
      ''HISTORY OF PRESENT ILLNESS'',
      ''HPI'',
      ''PAST MEDICAL HISTORY'',
      ''PMH'',
      ''MEDICATIONS'',
      ''ALLERGIES'',
      ''SOCIAL HISTORY'',
      ''FAMILY HISTORY'',
      ''REVIEW OF SYSTEMS'',
      ''ROS'',
      ''PHYSICAL EXAMINATION'',
      ''PHYSICAL EXAM'',
      ''VITAL SIGNS'',
      ''VITALS'',
      ''ASSESSMENT'',
      ''PLAN'',
      ''ASSESSMENT AND PLAN'',
      ''A/P'',
      ''LABS'',
      ''LABORATORY'',
      ''IMAGING'',
      ''RADIOLOGY'',
      ''DIAGNOSIS'',
      ''DIAGNOSES'',
      ''IMPRESSION'',
      ''RECOMMENDATIONS'',
      ''FOLLOW UP'',
      ''FOLLOW-UP'',
      ''DISCHARGE SUMMARY'',
      ''OPERATIVE REPORT'',
      ''PROCEDURE NOTE'']"

definition search_patterns :: "string \<Rightarrow> pystr list" where
  "search_patterns pattern =
     [py (newline # pattern @ '':''),
      py (newline # pattern @ [newline]),
      py (newline # pattern @ '' '')]"

text \<open>
  The inner loop over the three needles: the first one found appends one entry and
  breaks.
\<close>

fun probe :: "pystr \<Rightarrow> string \<Rightarrow> pystr list \<Rightarrow> section_span list \<Rightarrow> section_span list" where
  "probe text_upper pattern [] sections = sections"
| "probe text_upper pattern (search # rest) sections =
     (let idx = str_find text_upper search in
      if idx \<noteq> - 1
      then sections @
        [\<lparr>name = pattern, startIndex = idx + 1, detected = True, endIndex = None\<rparr>]
      else probe text_upper pattern rest sections)"

text \<open>The outer loop over the vocabulary.\<close>

fun scan :: "pystr \<Rightarrow> string list \<Rightarrow> section_span list \<Rightarrow> section_span list" where
  "scan text_upper [] sections = sections"
| "scan text_upper (pattern # rest) sections =
     scan text_upper rest (probe text_upper pattern (search_patterns pattern) sections)"

text \<open>
  The last loop: every entry gets the next entry's \<open>startIndex\<close> as its \<open>endIndex\<close>, the
  last one gets \<open>len(text)\<close>.
\<close>

fun add_end_index :: "int \<Rightarrow> section_span list \<Rightarrow> section_span list" where
  "add_end_index n [] = []"
| "add_end_index n [s] = [s\<lparr>endIndex := Some n\<rparr>]"
| "add_end_index n (s # t # rest) =
     s\<lparr>endIndex := Some (startIndex t)\<rparr> # add_end_index n (t # rest)"

text \<open>
  \<open>list.sort(key=...)\<close> is stable, as \<open>sort_key\<close> is.
\<close>

definition detect_sections :: "(codepoint \<Rightarrow> pystr) \<Rightarrow> pystr \<Rightarrow> section_span list" where
  "detect_sections to_upper_full text =
     (let text_upper = upper to_upper_full text;
          sections = scan text_upper section_patterns [];
          sections = sort_key startIndex sections
      in add_end_index (int (length text)) sections)"

section \<open>The document library and the runtime\<close>

text \<open>
  The PDF library is a black box. A raised exception is a value carrying \<open>str(e)\<close>;
  \<open>FileDataError\<close> is the library's own class, every other exception is caught by the
  \<open>except Exception\<close> clauses.
\<close>

datatype exn = FileDataError pystr | OtherException pystr

type_synonym table = "pystr list list"

text \<open>
  A page answers \<open>get_text()\<close> with a string or raises; \<open>find_tables()\<close> raises or gives
  the tables found, each of which answers \<open>extract()\<close> with its rows or raises.
\<close>

record fitz_page =
  get_text :: "exn + pystr"
  find_tables :: "exn + (exn + table) list"

text \<open>
  An opened document: its \<open>metadata\<close> attribute (a dictionary or \<open>None\<close>), its pages in
  order (\<open>len(doc)\<close> is their number) and what \<open>close()\<close> does.
\<close>

record fitz_document =
  doc_metadata :: "(pystr \<times> pystr) list option"
  doc_pages :: "fitz_page list"
  doc_close :: "exn option"

datatype json =
  JBool bool | JInt int | JStr pystr | JArray "json list" | JObject "(string \<times> json) list"

text \<open>
  What the program takes from its surroundings: the Unicode tables of \<open>str.upper\<close> and
  \<open>str.lower\<close>, the SHA-256 digest in hexadecimal, the text of the error raised for a
  string that UTF-8 cannot encode, the clock reading of \<open>datetime.utcnow().isoformat()\<close>
  (the clock does not advance during a run), the library's \<open>open\<close>, the file system
  queries of the entry point and what \<open>traceback.format_exc()\<close> prints.
\<close>

record runtime =
  to_upper_full :: "codepoint \<Rightarrow> pystr"
  lower :: "pystr \<Rightarrow> pystr"
  sha256_hexdigest :: "nat list \<Rightarrow> pystr"
  encode_error :: "pystr \<Rightarrow> pystr"
  utcnow_isoformat :: pystr
  fitz_open :: "pystr \<Rightarrow> exn + fitz_document"
  path_exists :: "pystr \<Rightarrow> bool"
  path_name :: "pystr \<Rightarrow> pystr"
  path_suffix :: "pystr \<Rightarrow> pystr"
  read_bytes :: "pystr \<Rightarrow> exn + nat list"
  stat_size :: "pystr \<Rightarrow> exn + int"
  open_for_writing :: "pystr \<Rightarrow> exn option"
  dump_unescaped :: "json \<Rightarrow> exn option"
  format_exc :: "exn \<Rightarrow> pystr"

section \<open>Hashing\<close>

text \<open>
  \<open>content.encode('utf-8')\<close>: one to four bytes per code point; the surrogates
  U+D800 to U+DFFF have no encoding and raise \<open>UnicodeEncodeError\<close>.
\<close>

definition utf8_encode_char :: "codepoint \<Rightarrow> nat list option" where
  "utf8_encode_char c =
     (if c < 0x80 then Some [c]
      else if c < 0x800 then Some [0xC0 + c div 0x40, 0x80 + c mod 0x40]
      else if 0xD800 \<le> c \<and> c \<le> 0xDFFF then None
      else if c < 0x10000
        then Some [0xE0 + c div 0x1000, 0x80 + c div 0x40 mod 0x40, 0x80 + c mod 0x40]
      else Some [0xF0 + c div 0x40000, 0x80 + c div 0x1000 mod 0x40,
                 0x80 + c div 0x40 mod 0x40, 0x80 + c mod 0x40])"

fun utf8_encode :: "pystr \<Rightarrow> nat list option" where
  "utf8_encode [] = Some []"
| "utf8_encode (c # cs) =
     (case utf8_encode_char c of
        None \<Rightarrow> None
      | Some bs \<Rightarrow>
          (case utf8_encode cs of None \<Rightarrow> None | Some rest \<Rightarrow> Some (bs @ rest)))"

definition compute_hash :: "runtime \<Rightarrow> pystr \<Rightarrow> exn + pystr" where
  "compute_hash rt content =
     (case utf8_encode content of
        None \<Rightarrow> Inl (OtherException (encode_error rt content))
      | Some bytes \<Rightarrow> Inr (sha256_hexdigest rt bytes))"

section \<open>Tables\<close>

text \<open>
  \<open>extract_tables\<close>: any exception ends the attempt and the tables appended so far are
  returned; an empty extraction is not appended.
\<close>

fun extract_loop :: "(exn + table) list \<Rightarrow> table list \<Rightarrow> table list" where
  "extract_loop [] tables = tables"
| "extract_loop (Inl e # rest) tables = tables"
| "extract_loop (Inr extracted # rest) tables =
     extract_loop rest (if extracted \<noteq> [] then tables @ [extracted] else tables)"

definition extract_tables :: "fitz_page \<Rightarrow> table list" where
  "extract_tables page =
     (case find_tables page of
        Inl e \<Rightarrow> []
      | Inr table_finder \<Rightarrow> extract_loop table_finder [])"

section \<open>The primary pipeline\<close>

record table_record =
  page :: nat
  data :: table

record parse_result =
  success :: bool
  pageCount :: nat
  fulltext :: pystr
  tables :: "table_record list"
  metadata :: "(string \<times> json) list"
  sections :: "section_span list"
  contentHash :: pystr
  warnings :: "pystr list"
  parsedAt :: pystr

text \<open>The decimal digits of a natural number, as an f-string prints it.\<close>

fun str_nat :: "nat \<Rightarrow> pystr" where
  "str_nat n = (if n < 10 then [48 + n] else str_nat (n div 10) @ [48 + n mod 10])"

declare str_nat.simps [simp del]

text \<open>\<open>sep.join(xs)\<close>\<close>

fun join :: "pystr \<Rightarrow> pystr list \<Rightarrow> pystr" where
  "join sep [] = []"
| "join sep [x] = x"
| "join sep (x # y # ys) = x @ sep @ join sep (y # ys)"

text \<open>
  \<open>str.strip()\<close> removes the white space at both ends; \<open>isspace\<close> lists the code points
  Python counts as white space.
\<close>

definition isspace :: "codepoint \<Rightarrow> bool" where
  "isspace c =
     (c \<in> set [9, 10, 11, 12, 13, 28, 29, 30, 31, 32, 133, 160, 5760,
                8232, 8233, 8239, 8287, 12288]
      \<or> (8192 \<le> c \<and> c \<le> 8202))"

definition strip :: "pystr \<Rightarrow> pystr" where
  "strip s = rev (dropWhile isspace (rev (dropWhile isspace s)))"

text \<open>\<open>d.get(key, default)\<close> on a dictionary held as an association list.\<close>

definition dict_get :: "(pystr \<times> pystr) list \<Rightarrow> string \<Rightarrow> pystr \<Rightarrow> pystr" where
  "dict_get d key dflt = (case map_of d (py key) of Some v \<Rightarrow> v | None \<Rightarrow> dflt)"

definition page_marker :: "nat \<Rightarrow> pystr" where
  "page_marker n = py ''--- Page '' @ str_nat n @ py '' ---''"

text \<open>
  The loop over the pages, with its counter \<open>page_num\<close> and its two accumulators. An
  exception of \<open>get_text\<close> leaves the loop.
\<close>

fun page_loop ::
  "fitz_page list \<Rightarrow> nat \<Rightarrow> pystr list \<Rightarrow> table_record list \<Rightarrow>
   exn + pystr list \<times> table_record list" where
  "page_loop [] page_num all_text all_tables = Inr (all_text, all_tables)"
| "page_loop (pg # rest) page_num all_text all_tables =
     (case get_text pg of
        Inl e \<Rightarrow> Inl e
      | Inr page_text \<Rightarrow>
          page_loop rest (page_num + 1)
            (if page_text \<noteq> []
             then all_text @ [page_marker (page_num + 1) @ py [newline] @ page_text]
             else all_text)
            (all_tables @
               map (\<lambda>t. \<lparr>page = page_num + 1, data = t\<rparr>) (extract_tables pg)))"

text \<open>
  Whether the document handle is open when \<open>parse_pdf\<close> returns: the only call of
  \<open>close\<close> is the one before \<open>success\<close> is set. A \<open>close\<close> that raises is not counted as
  having closed the handle.
\<close>

datatype handle_state = NotOpened | StillOpen | Closed

definition metadata_keys :: "string list" where
  "metadata_keys =
     [''title'', ''author'', ''subject'', ''creator'', ''producer'',
      ''creationDate'', ''modDate'']"

definition low_content_warning :: pystr where
  "low_content_warning = py ''Document appears to have very little text content''"

definition large_document_warning :: "nat \<Rightarrow> pystr" where
  "large_document_warning n = py ''Large document with '' @ str_nat n @ py '' pages''"

text \<open>
  The body of the \<open>try\<close> statement: the exception that left it, if any, the result
  dictionary as the statements run so far have changed it, and the state of the handle.
  \<open>if metadata:\<close> is false for \<open>None\<close> and for the empty dictionary.
\<close>

definition try_block ::
  "runtime \<Rightarrow> pystr \<Rightarrow> parse_result \<Rightarrow> exn option \<times> parse_result \<times> handle_state" where
  "try_block rt input_path result0 =
     (case fitz_open rt input_path of
        Inl e \<Rightarrow> (Some e, result0, NotOpened)
      | Inr doc \<Rightarrow>
          (let result1 = result0\<lparr>pageCount := length (doc_pages doc)\<rparr>;
               result2 =
                 (case doc_metadata doc of
                    None \<Rightarrow> result1
                  | Some md \<Rightarrow>
                      if md \<noteq> []
                      then result1\<lparr>metadata :=
                        map (\<lambda>k. (k, JStr (dict_get md k []))) metadata_keys\<rparr>
                      else result1)
           in case page_loop (doc_pages doc) 0 [] [] of
                Inl e \<Rightarrow> (Some e, result2, StillOpen)
              | Inr (all_text, all_tables) \<Rightarrow>
                  (let full_text = join (py [newline, newline]) all_text;
                       result3 = result2\<lparr>fulltext := full_text, tables := all_tables\<rparr>
                   in case compute_hash rt full_text of
                        Inl e \<Rightarrow> (Some e, result3, StillOpen)
                      | Inr h \<Rightarrow>
                          (let result4 = result3\<lparr>contentHash := h\<rparr>;
                               result5 = result4\<lparr>sections :=
                                 detect_sections (to_upper_full rt) full_text\<rparr>;
                               result6 =
                                 (if length (strip full_text) < 100
                                  then result5\<lparr>warnings :=
                                    warnings result5 @ [low_content_warning]\<rparr>
                                  else result5);
                               result7 =
                                 (if pageCount result6 > 100
                                  then result6\<lparr>warnings := warnings result6 @
                                    [large_document_warning (pageCount result6)]\<rparr>
                                  else result6)
                           in case doc_close doc of
                                Some e \<Rightarrow> (Some e, result7, StillOpen)
                              | None \<Rightarrow> (None, result7\<lparr>success := True\<rparr>, Closed)))))"

definition initial_result :: "runtime \<Rightarrow> parse_result" where
  "initial_result rt =
     \<lparr>success = False, pageCount = 0, fulltext = [], tables = [], metadata = [],
      sections = [], contentHash = [], warnings = [],
      parsedAt = utcnow_isoformat rt @ py ''Z''\<rparr>"

text \<open>The two \<open>except\<close> clauses.\<close>

fun handle_exception :: "exn \<Rightarrow> parse_result \<Rightarrow> parse_result" where
  "handle_exception (FileDataError msg) result =
     result\<lparr>warnings := warnings result @ [py ''PDF parsing error: '' @ msg],
            success := False\<rparr>"
| "handle_exception (OtherException msg) result =
     result\<lparr>warnings := warnings result @ [py ''Unexpected error: '' @ msg],
            success := False\<rparr>"

definition parse_pdf :: "runtime \<Rightarrow> pystr \<Rightarrow> parse_result \<times> handle_state" where
  "parse_pdf rt input_path =
     (case try_block rt input_path (initial_result rt) of
        (None, result, h) \<Rightarrow> (result, h)
      | (Some e, result, h) \<Rightarrow> (handle_exception e result, h))"

section \<open>The alternate path and the entry point\<close>

definition parse_image :: "runtime \<Rightarrow> pystr \<Rightarrow> parse_result" where
  "parse_image rt input_path =
     (let result0 =
        \<lparr>success = False, pageCount = 1, fulltext = [], tables = [], metadata = [],
         sections = [], contentHash = [],
         warnings = [py ''Image OCR not implemented - returning metadata only''],
         parsedAt = utcnow_isoformat rt @ py ''Z''\<rparr>;
          failed = (\<lambda>e result.
            result\<lparr>warnings := warnings result @
              [py ''Image parsing error: '' @ (case e of FileDataError m \<Rightarrow> m | OtherException m \<Rightarrow> m)],
              success := False\<rparr>)
      in case read_bytes rt input_path of
           Inl e \<Rightarrow> failed e result0
         | Inr content \<Rightarrow>
             (let result1 = result0\<lparr>contentHash := sha256_hexdigest rt content\<rparr>
              in case stat_size rt input_path of
                   Inl e \<Rightarrow> failed e result1
                 | Inr size_bytes \<Rightarrow>
                     result1\<lparr>metadata :=
                       [(''filename'', JStr (path_name rt input_path)),
                        (''extension'', JStr (lower rt (path_suffix rt input_path))),
                        (''sizeBytes'', JInt size_bytes)],
                       success := True\<rparr>))"

text \<open>The result dictionary as the JSON value that \<open>json.dump\<close> writes.\<close>

definition section_json :: "section_span \<Rightarrow> json" where
  "section_json s =
     JObject ([(''name'', JStr (py (name s))), (''startIndex'', JInt (startIndex s)),
               (''detected'', JBool (detected s))] @
              (case endIndex s of None \<Rightarrow> [] | Some e \<Rightarrow> [(''endIndex'', JInt e)]))"

definition table_json :: "table_record \<Rightarrow> json" where
  "table_json t =
     JObject [(''page'', JInt (int (page t))),
              (''data'', JArray (map (\<lambda>row. JArray (map JStr row)) (data t)))]"

definition result_json :: "parse_result \<Rightarrow> json" where
  "result_json r =
     JObject [(''success'', JBool (success r)),
              (''pageCount'', JInt (int (pageCount r))),
              (''text'', JStr (fulltext r)),
              (''tables'', JArray (map table_json (tables r))),
              (''metadata'', JObject (metadata r)),
              (''sections'', JArray (map section_json (sections r))),
              (''contentHash'', JStr (contentHash r)),
              (''warnings'', JArray (map JStr (warnings r))),
              (''parsedAt'', JStr (parsedAt r))]"

text \<open>
  What a run of the program leaves behind: its exit code, the files it wrote completely
  (path and JSON value, in order) and what it printed on the error stream.
\<close>

record outcome =
  exit_code :: int
  written :: "(pystr \<times> json) list"
  stderr :: "pystr list"

text \<open>
  \<open>with open(path, 'w') as f: json.dump(value, f, ...)\<close>: opening may raise; with
  \<open>ensure_ascii=False\<close> the encoder of the file may reject the text.
\<close>

definition write_json :: "runtime \<Rightarrow> pystr \<Rightarrow> bool \<Rightarrow> json \<Rightarrow> exn option" where
  "write_json rt path ensure_ascii v =
     (case open_for_writing rt path of
        Some e \<Rightarrow> Some e
      | None \<Rightarrow> if ensure_ascii then None else dump_unescaped rt v)"

definition exn_str :: "exn \<Rightarrow> pystr" where
  "exn_str e = (case e of FileDataError m \<Rightarrow> m | OtherException m \<Rightarrow> m)"

text \<open>
  An exception that nothing catches ends the process with the traceback on the error
  stream and exit code 1.
\<close>

definition uncaught :: "runtime \<Rightarrow> exn \<Rightarrow> outcome" where
  "uncaught rt e = \<lparr>exit_code = 1, written = [], stderr = [format_exc rt e]\<rparr>"

definition image_suffixes :: "string list" where
  "image_suffixes = [''.png'', ''.jpg'', ''.jpeg'', ''.gif'', ''.bmp'', ''.tiff'', ''.tif'']"

definition main :: "runtime \<Rightarrow> pystr list \<Rightarrow> outcome" where
  "main rt argv =
     (if length argv \<noteq> 3
      then \<lparr>exit_code = 1, written = [],
            stderr = [py ''Usage: python parse.py <input_file> <output_file>'']\<rparr>
      else
        (let input_path = argv ! 1; output_path = argv ! 2 in
         if \<not> path_exists rt input_path
         then
           (let error_result =
              JObject [(''success'', JBool False),
                       (''error'', JStr (py ''Input file not found: '' @ input_path)),
                       (''parsedAt'', JStr (utcnow_isoformat rt @ py ''Z''))]
            in case write_json rt output_path True error_result of
                 Some e \<Rightarrow> uncaught rt e
               | None \<Rightarrow>
                   \<lparr>exit_code = 1, written = [(output_path, error_result)], stderr = []\<rparr>)
         else
           (let input_lower = lower rt input_path;
                result =
                  (if suffix (py ''.pdf'') input_lower then fst (parse_pdf rt input_path)
                   else if list_ex (\<lambda>sfx. suffix (py sfx) input_lower) image_suffixes
                     then parse_image rt input_path
                   else
                     (let r = fst (parse_pdf rt input_path) in
                      if \<not> success r
                      then r\<lparr>warnings := warnings r @
                        [py ''Unknown file type, attempted PDF parsing'']\<rparr>
                      else r))
            in case write_json rt output_path False (result_json result) of
                 None \<Rightarrow>
                   \<lparr>exit_code = (if success result then 0 else 1),
                    written = [(output_path, result_json result)], stderr = []\<rparr>
               | Some e \<Rightarrow>
                   (let error_result =
                      JObject [(''success'', JBool False),
                               (''error'', JStr (exn_str e)),
                               (''traceback'', JStr (format_exc rt e)),
                               (''parsedAt'', JStr (utcnow_isoformat rt @ py ''Z''))]
                    in case write_json rt output_path True error_result of
                         Some e' \<Rightarrow> uncaught rt e'
                       | None \<Rightarrow>
                           \<lparr>exit_code = 1, written = [(output_path, error_result)],
                            stderr = []\<rparr>))))"

section \<open>Example documents\<close>

text \<open>
  A runtime for the examples. Every theorem below is proved for an arbitrary digest
  function; the digest of the examples gives the SHA-256 digest of the empty byte string
  for it and, as a stand-in, the bytes in hexadecimal for any other input. The library
  opens the given document for every path.
\<close>

definition hex_digit :: "nat \<Rightarrow> codepoint" where
  "hex_digit d = (if d < 10 then 48 + d else 87 + d)"

definition hex_text :: "nat list \<Rightarrow> pystr" where
  "hex_text bs = concat (map (\<lambda>b. [hex_digit (b div 16), hex_digit (b mod 16)]) bs)"

definition example_digest :: "nat list \<Rightarrow> pystr" where
  "example_digest bs =
     (if bs = []
      then py ''e3b0c44298fc1c149afbf4c8996fb92427ae41e4649b934ca495991b7852b855''
      else hex_text bs)"

definition example_runtime :: "fitz_document \<Rightarrow> runtime" where
  "example_runtime doc =
     \<lparr>to_upper_full = upper_latin1,
      lower = (\<lambda>s. s),
      sha256_hexdigest = example_digest,
      encode_error = (\<lambda>s. py ''surrogates not allowed''),
      utcnow_isoformat = py ''2025-01-01T00:00:00'',
      fitz_open = (\<lambda>p. Inr doc),
      path_exists = (\<lambda>p. False),
      path_name = (\<lambda>p. p),
      path_suffix = (\<lambda>p. []),
      read_bytes = (\<lambda>p. Inr []),
      stat_size = (\<lambda>p. Inr 0),
      open_for_writing = (\<lambda>p. None),
      dump_unescaped = (\<lambda>v. None),
      format_exc = (\<lambda>e. [])\<rparr>"

definition text_page :: "pystr \<Rightarrow> fitz_page" where
  "text_page t = \<lparr>get_text = Inr t, find_tables = Inr []\<rparr>"

definition doc_without_metadata :: fitz_document where
  "doc_without_metadata =
     \<lparr>doc_metadata = None, doc_pages = [text_page (py ''ok'')], doc_close = None\<rparr>"

definition doc_with_title :: fitz_document where
  "doc_with_title =
     \<lparr>doc_metadata = Some [(py ''format'', py ''PDF 1.7''), (py ''title'', py ''Note'')],
      doc_pages = [text_page (py ''ok'')], doc_close = None\<rparr>"

definition doc_blank :: fitz_document where
  "doc_blank = \<lparr>doc_metadata = None, doc_pages = [text_page []], doc_close = None\<rparr>"

definition doc_surrogate :: fitz_document where
  "doc_surrogate =
     \<lparr>doc_metadata = None, doc_pages = [text_page [55296]], doc_close = None\<rparr>"

definition doc_failing_page :: fitz_document where
  "doc_failing_page =
     \<lparr>doc_metadata = None,
      doc_pages = [text_page (py ''ok''),
                   \<lparr>get_text = Inl (OtherException (py ''cannot load page'')),
                    find_tables = Inr []\<rparr>],
      doc_close = None\<rparr>"

definition doc_150_pages :: fitz_document where
  "doc_150_pages =
     \<lparr>doc_metadata = None, doc_pages = replicate 150 (text_page []), doc_close = None\<rparr>"

text \<open>
  A document with one page of a hundred letters, and a runtime in which no file can be
  opened for writing.
\<close>

definition doc_long_page :: fitz_document where
  "doc_long_page =
     \<lparr>doc_metadata = None, doc_pages = [text_page (replicate 100 97)], doc_close = None\<rparr>"

definition unwritable_runtime :: runtime where
  "unwritable_runtime =
     (example_runtime doc_blank)
       \<lparr>open_for_writing := (\<lambda>p. Some (OtherException (py ''Permission denied'')))\<rparr>"

text \<open>
  A document whose second page has no text, and a document whose only page has a page
  marker as its text.
\<close>

definition doc_skipped_page :: fitz_document where
  "doc_skipped_page =
     \<lparr>doc_metadata = None,
      doc_pages = [text_page (py ''a''), text_page [], text_page (py ''b'')],
      doc_close = None\<rparr>"

definition doc_marker_in_text :: fitz_document where
  "doc_marker_in_text =
     \<lparr>doc_metadata = None, doc_pages = [text_page (py ''--- Page 2 ---'')],
      doc_close = None\<rparr>"

section \<open>The specification's notions\<close>

text \<open>
  An occurrence of \<open>sub\<close> in \<open>s\<close> at index \<open>k\<close>; whether \<open>sub\<close> is found anywhere; the
  leftmost occurrence; and the first of a list of needles that is found.
\<close>

definition occurs_at :: "pystr \<Rightarrow> pystr \<Rightarrow> nat \<Rightarrow> bool" where
  "occurs_at s sub k = (take (length sub) (drop k s) = sub)"

definition found :: "pystr \<Rightarrow> pystr \<Rightarrow> bool" where
  "found s sub = (\<exists>k \<in> {0..length s}. occurs_at s sub k)"

definition leftmost :: "pystr \<Rightarrow> pystr \<Rightarrow> nat \<Rightarrow> bool" where
  "leftmost s sub k = (occurs_at s sub k \<and> (\<forall>j \<in> {0..<k}. \<not> occurs_at s sub j))"

text \<open>A short note with two headers, the second in mixed case.\<close>

definition ex_plan :: pystr where
  "ex_plan =
     py (newline # ''assessment:'' @ newline # ''ok'' @ newline # ''Plan:'' @ newline # ''go'')"

text \<open>
  A text in which the header recurs: first followed by a space, then by a colon.
\<close>

definition ex_recurring :: pystr where
  "ex_recurring =
     py (newline # ''plan x'' @ newline # ''PLAN:a'' @ newline # ''plan:'')"

text \<open>
  A text that begins with a header and has a second header on a later line; the span
  found in it; and a text with six sharp s before its only header.
\<close>

definition ex_position0 :: pystr where
  "ex_position0 = py (''plan: a'' @ newline # ''Labs: b'')"

definition labs_span :: section_span where
  "labs_span = \<lparr>name = ''LABS'', startIndex = 8, detected = True, endIndex = Some 15\<rparr>"

definition ex_sharp_s :: pystr where
  "ex_sharp_s = replicate 6 223 @ py (newline # ''PLAN:'')"

fun first_found :: "pystr \<Rightarrow> pystr list \<Rightarrow> pystr option" where
  "first_found s [] = None"
| "first_found s (n # ns) = (if found s n then Some n else first_found s ns)"

text \<open>
  A page marker in a text: \<open>--- Page\<close>, a space, one or more decimal digits, a space and
  \<open>---\<close>. \<open>marker_at s\<close> says that \<open>s\<close> begins with a marker; \<open>count_markers\<close> counts the
  positions of a text at which a marker begins.
\<close>

definition is_digit :: "codepoint \<Rightarrow> bool" where
  "is_digit c = (48 \<le> c \<and> c \<le> 57)"

definition marker_at :: "pystr \<Rightarrow> bool" where
  "marker_at s =
     (prefix (py ''--- Page '') s \<and>
      takeWhile is_digit (drop 9 s) \<noteq> [] \<and>
      prefix (py '' ---'') (dropWhile is_digit (drop 9 s)))"

fun count_markers :: "pystr \<Rightarrow> nat" where
  "count_markers [] = 0"
| "count_markers (c # cs) = (if marker_at (c # cs) then 1 else 0) + count_markers cs"

text \<open>
  The text extractor in the specification's words: the pages with empty text are left
  out, every other page is rendered with its marker, numbered by its position in the
  document counted from 1, a newline and its text.
\<close>

definition rendered :: "pystr list \<Rightarrow> pystr list" where
  "rendered texts =
     map (\<lambda>(i, t). py ''--- Page '' @ str_nat (i + 1) @ py '' ---'' @ py [newline] @ t)
       (filter (\<lambda>(i, t). t \<noteq> []) (enumerate 0 texts))"

section \<open>Searching\<close>

lemma occurs_at_prefix: "occurs_at s sub k = prefix sub (drop k s)"
  unfolding occurs_at_def
  by (metis prefix_def append_eq_conv_conj append_take_drop_id)

lemma find_from_found:
  "find_from sub s i \<noteq> - 1 \<Longrightarrow> 0 \<le> i \<Longrightarrow>
   \<exists>k. find_from sub s i = i + int k \<and> k \<le> length s \<and> prefix sub (drop k s) \<and>
       (\<forall>j<k. \<not> prefix sub (drop j s))"
proof (induction s arbitrary: i)
  case Nil
  then show ?case by (auto split: if_splits)
next
  case (Cons c cs)
  show ?case
  proof (cases "prefix sub (c # cs)")
    case True
    then show ?thesis by (intro exI[of _ 0]) simp
  next
    case False
    with Cons.prems have "find_from sub cs (i + 1) \<noteq> - 1" "0 \<le> i + 1" by simp_all
    from Cons.IH[OF this] obtain k where k:
      "find_from sub cs (i + 1) = i + 1 + int k" "k \<le> length cs"
      "prefix sub (drop k cs)" "\<forall>j<k. \<not> prefix sub (drop j cs)" by blast
    have "\<forall>j<Suc k. \<not> prefix sub (drop j (c # cs))"
    proof (intro allI impI)
      fix j assume "j < Suc k"
      then show "\<not> prefix sub (drop j (c # cs))"
        using False k(4) by (cases j) auto
    qed
    with k False show ?thesis by (intro exI[of _ "Suc k"]) simp
  qed
qed

lemma find_from_absent:
  "find_from sub s i = - 1 \<Longrightarrow> 0 \<le> i \<Longrightarrow> \<not> prefix sub (drop k s)"
proof (induction s arbitrary: i k)
  case Nil
  then show ?case by (auto split: if_splits)
next
  case (Cons c cs)
  from Cons.prems have np: "\<not> prefix sub (c # cs)" by (auto split: if_splits)
  with Cons.prems have "find_from sub cs (i + 1) = - 1" "0 \<le> i + 1" by simp_all
  from Cons.IH[OF this] have "\<And>k. \<not> prefix sub (drop k cs)" .
  with np show ?case by (cases k) auto
qed

lemma str_find_found:
  assumes "str_find s sub \<noteq> - 1"
  shows "\<exists>k. str_find s sub = int k \<and> leftmost s sub k \<and> k \<le> length s"
proof -
  from find_from_found[of sub s 0] assms obtain k where
    "find_from sub s 0 = int k" "k \<le> length s" "prefix sub (drop k s)"
    "\<forall>j<k. \<not> prefix sub (drop j s)"
    by (auto simp: str_find_def)
  then show ?thesis
    by (auto simp: str_find_def leftmost_def occurs_at_prefix)
qed

lemma str_find_absent:
  "str_find s sub = - 1 \<Longrightarrow> \<not> found s sub"
  using find_from_absent[of sub s 0]
  by (auto simp: str_find_def found_def occurs_at_prefix)

lemma found_iff_str_find: "found s sub \<longleftrightarrow> str_find s sub \<noteq> - 1"
proof
  assume "found s sub"
  then show "str_find s sub \<noteq> - 1" using str_find_absent by blast
next
  assume "str_find s sub \<noteq> - 1"
  from str_find_found[OF this] show "found s sub"
    by (auto simp: found_def leftmost_def)
qed

lemma leftmost_unique: "leftmost s sub k \<Longrightarrow> leftmost s sub k' \<Longrightarrow> k = k'"
  unfolding leftmost_def by (metis atLeastLessThan_iff linorder_neqE_nat zero_le)

section \<open>The loops of the section detector\<close>

lemma probe_append:
  "probe tu p ns acc = acc @ probe tu p ns []"
  by (induction ns) (auto simp: Let_def)

lemma scan_append:
  "scan tu ps acc = acc @ scan tu ps []"
proof (induction ps arbitrary: acc)
  case Nil
  then show ?case by simp
next
  case (Cons p ps)
  have "scan tu (p # ps) acc = scan tu ps (probe tu p (search_patterns p) acc)" by simp
  also have "\<dots> = probe tu p (search_patterns p) acc @ scan tu ps []"
    by (rule Cons.IH)
  also have "\<dots> = acc @ probe tu p (search_patterns p) [] @ scan tu ps []"
    by (subst probe_append) simp
  also have "probe tu p (search_patterns p) [] @ scan tu ps [] = scan tu (p # ps) []"
    by (simp add: Cons.IH[of "probe tu p (search_patterns p) []"])
  finally show ?case .
qed

lemma scan_Cons:
  "scan tu (p # ps) [] = probe tu p (search_patterns p) [] @ scan tu ps []"
  by (simp add: scan_append[of tu ps "probe tu p (search_patterns p) []"])

lemma length_add_end_index [simp]: "length (add_end_index n ss) = length ss"
  by (induction n ss rule: add_end_index.induct) auto

lemma map_startIndex_add_end_index [simp]:
  "map startIndex (add_end_index n ss) = map startIndex ss"
  by (induction n ss rule: add_end_index.induct) auto

lemma map_name_add_end_index [simp]:
  "map name (add_end_index n ss) = map name ss"
  by (induction n ss rule: add_end_index.induct) auto

lemma add_end_index_nth:
  "Suc i < length ss \<Longrightarrow>
   endIndex (add_end_index n ss ! i) = Some (startIndex (ss ! Suc i))"
proof (induction n ss arbitrary: i rule: add_end_index.induct)
  case (3 n s t rest)
  then show ?case by (cases i) auto
qed auto

lemma add_end_index_last:
  "ss \<noteq> [] \<Longrightarrow> endIndex (last (add_end_index n ss)) = Some n"
proof (induction n ss rule: add_end_index.induct)
  case (3 n s t rest)
  have "add_end_index n (t # rest) \<noteq> []"
    using length_add_end_index[of n "t # rest"] by (metis length_0_conv list.distinct(1))
  with 3 show ?case by simp
qed auto

lemma add_end_index_startIndex_nth:
  "i < length ss \<Longrightarrow> startIndex (add_end_index n ss ! i) = startIndex (ss ! i)"
  using map_startIndex_add_end_index[of n ss]
  by (metis length_add_end_index nth_map)

lemma probe_first_found:
  "probe tu p ns [] =
     (case first_found tu ns of
        None \<Rightarrow> []
      | Some nd \<Rightarrow>
          [\<lparr>name = p, startIndex = str_find tu nd + 1, detected = True, endIndex = None\<rparr>])"
  by (induction ns) (auto simp: Let_def found_iff_str_find)

lemma first_found_Some: "first_found tu ns = Some nd \<Longrightarrow> nd \<in> set ns \<and> found tu nd"
  by (induction ns) (auto split: if_splits)

lemma filter_probe_other:
  "q \<noteq> p \<Longrightarrow> filter (\<lambda>s. name s = p) (probe tu q ns []) = []"
  by (simp add: probe_first_found split: option.splits)

lemma filter_probe_same:
  "filter (\<lambda>s. name s = p) (probe tu p ns []) = probe tu p ns []"
  by (simp add: probe_first_found split: option.splits)

lemma filter_scan:
  "distinct ps \<Longrightarrow>
   filter (\<lambda>s. name s = p) (scan tu ps []) =
     (if p \<in> set ps then probe tu p (search_patterns p) [] else [])"
proof (induction ps)
  case Nil
  then show ?case by simp
next
  case (Cons q ps)
  show ?case
  proof (cases "q = p")
    case True
    with Cons show ?thesis
      by (simp add: scan_Cons filter_probe_same del: scan.simps)
  next
    case False
    with Cons show ?thesis
      by (simp add: scan_Cons filter_probe_other del: scan.simps)
  qed
qed

lemma filter_add_end_index:
  "map (\<lambda>s. (name s, startIndex s, detected s)) (filter (\<lambda>s. name s = p) (add_end_index n ss)) =
   map (\<lambda>s. (name s, startIndex s, detected s)) (filter (\<lambda>s. name s = p) ss)"
  by (induction n ss rule: add_end_index.induct) auto

lemma distinct_section_patterns: "distinct section_patterns"
  by (simp add: section_patterns_def)

lemma filter_detect_sections:
  "map (\<lambda>s. (name s, startIndex s, detected s))
     (filter (\<lambda>s. name s = p) (detect_sections up text)) =
   map (\<lambda>s. (name s, startIndex s, detected s))
     (if p \<in> set section_patterns
      then probe (upper up text) p (search_patterns p) [] else [])"
proof -
  have "filter (\<lambda>s. name s = p) (sort_key startIndex (scan (upper up text) section_patterns [])) =
        sort_key startIndex (filter (\<lambda>s. name s = p) (scan (upper up text) section_patterns []))"
    by (rule filter_sort)
  also have "\<dots> = sort_key startIndex
      (if p \<in> set section_patterns then probe (upper up text) p (search_patterns p) [] else [])"
    by (simp only: filter_scan[OF distinct_section_patterns])
  also have "\<dots> = (if p \<in> set section_patterns then probe (upper up text) p (search_patterns p) [] else [])"
    by (simp add: probe_first_found split: option.splits)
  finally show ?thesis
    by (simp add: detect_sections_def Let_def filter_add_end_index)
qed

section \<open>Order and contiguity of the spans\<close>

text \<open>
  C1: for every input text (and every upper-case table) the spans returned by
  \<open>detect_sections\<close> are sorted ascending by \<open>startIndex\<close>; every entry but the last has
  the next entry's \<open>startIndex\<close> as its \<open>endIndex\<close>; and the last entry's \<open>endIndex\<close> is the
  length of the input text.
\<close>

theorem detect_sections_sorted_contiguous:
  "sorted (map startIndex (detect_sections up text)) \<and>
   (\<forall>i. Suc i < length (detect_sections up text) \<longrightarrow>
      endIndex (detect_sections up text ! i) =
        Some (startIndex (detect_sections up text ! Suc i))) \<and>
   (detect_sections up text \<noteq> [] \<longrightarrow>
      endIndex (last (detect_sections up text)) = Some (int (length text)))"
proof -
  define ss where "ss = sort_key startIndex (scan (upper up text) section_patterns [])"
  have ds: "detect_sections up text = add_end_index (int (length text)) ss"
    by (simp add: detect_sections_def ss_def Let_def)
  have "sorted (map startIndex ss)" by (simp add: ss_def)
  then have 1: "sorted (map startIndex (detect_sections up text))" by (simp add: ds)
  have 2: "endIndex (detect_sections up text ! i) =
        Some (startIndex (detect_sections up text ! Suc i))"
    if "Suc i < length (detect_sections up text)" for i
    using that by (simp add: ds add_end_index_nth add_end_index_startIndex_nth)
  have 3: "endIndex (last (detect_sections up text)) = Some (int (length text))"
    if "detect_sections up text \<noteq> []"
  proof -
    from that have "ss \<noteq> []" by (auto simp: ds)
    then show ?thesis by (simp add: ds add_end_index_last)
  qed
  from 1 2 3 show ?thesis by blast
qed

lemma detect_sections_ex_plan:
  "detect_sections upper_latin1 ex_plan =
     [\<lparr>name = ''ASSESSMENT'', startIndex = 1, detected = True, endIndex = Some 16\<rparr>,
      \<lparr>name = ''PLAN'', startIndex = 16, detected = True, endIndex = Some 24\<rparr>]"
  by code_simp

lemma length_ex_plan: "int (length ex_plan) = 24"
  by code_simp

theorem detect_sections_sorted_contiguous_witness:
  "sorted (map startIndex (detect_sections upper_latin1 ex_plan)) \<and>
   length (detect_sections upper_latin1 ex_plan) = 2 \<and>
   endIndex (detect_sections upper_latin1 ex_plan ! 0) =
     Some (startIndex (detect_sections upper_latin1 ex_plan ! 1)) \<and>
   endIndex (last (detect_sections upper_latin1 ex_plan)) = Some 24"
proof -
  note T = detect_sections_sorted_contiguous[of upper_latin1 ex_plan]
  have len: "length (detect_sections upper_latin1 ex_plan) = 2"
    by (simp add: detect_sections_ex_plan)
  then have ne: "detect_sections upper_latin1 ex_plan \<noteq> []" by auto
  from T have a: "sorted (map startIndex (detect_sections upper_latin1 ex_plan))"
    by (rule conjunct1)
  from T have "\<forall>i. Suc i < length (detect_sections upper_latin1 ex_plan) \<longrightarrow>
      endIndex (detect_sections upper_latin1 ex_plan ! i) =
        Some (startIndex (detect_sections upper_latin1 ex_plan ! Suc i))"
    by blast
  from this[rule_format, of 0] len
  have b: "endIndex (detect_sections upper_latin1 ex_plan ! 0) =
     Some (startIndex (detect_sections upper_latin1 ex_plan ! 1))" by simp
  from T ne have "endIndex (last (detect_sections upper_latin1 ex_plan)) =
     Some (int (length ex_plan))" by blast
  then have c: "endIndex (last (detect_sections upper_latin1 ex_plan)) = Some 24"
    by (simp only: length_ex_plan)
  from a len b c show ?thesis by blast
qed

section \<open>Needle priority\<close>

text \<open>
  C2: for every input text and every vocabulary entry, the detector probes the needles
  newline-header-colon, newline-header-newline and newline-header-space in this order
  against the upper-cased text and takes the first of them that is found anywhere; the
  entry then has exactly one span, whose \<open>startIndex\<close> is the index of the leftmost
  occurrence of that needle plus one; an entry none of whose needles is found has no
  span. Occurrences of the header further to the right, or of a needle of lower
  priority further to the left, change nothing.
\<close>

theorem detect_sections_needle_priority:
  "pattern \<in> set section_patterns \<Longrightarrow>
   (case first_found (upper up text)
       [py (newline # pattern @ '':''), py (newline # pattern @ [newline]),
        py (newline # pattern @ '' '')] of
      None \<Rightarrow> filter (\<lambda>s. name s = pattern) (detect_sections up text) = []
    | Some needle \<Rightarrow>
        (\<exists>k. leftmost (upper up text) needle k \<and>
           map (\<lambda>s. (name s, startIndex s, detected s))
             (filter (\<lambda>s. name s = pattern) (detect_sections up text)) =
           [(pattern, int k + 1, True)]))"
proof -
  assume mem: "pattern \<in> set section_patterns"
  let ?ns = "[py (newline # pattern @ '':''), py (newline # pattern @ [newline]),
        py (newline # pattern @ '' '')]"
  have ns: "search_patterns pattern = ?ns" by (simp add: search_patterns_def)
  show ?thesis
  proof (cases "first_found (upper up text) ?ns")
    case None
    with filter_detect_sections[of pattern up "text"] mem show ?thesis
      by (simp add: probe_first_found ns)
  next
    case (Some nd)
    then have "found (upper up text) nd" using first_found_Some by blast
    then have "str_find (upper up text) nd \<noteq> - 1" by (simp add: found_iff_str_find)
    from str_find_found[OF this] obtain k where
      k: "str_find (upper up text) nd = int k" "leftmost (upper up text) nd k" by blast
    from filter_detect_sections[of pattern up "text"] mem Some k
    have "map (\<lambda>s. (name s, startIndex s, detected s))
             (filter (\<lambda>s. name s = pattern) (detect_sections up text)) =
           [(pattern, int k + 1, True)]"
      by (simp add: probe_first_found ns)
    with k(2) Some show ?thesis by auto
  qed
qed

lemma section_patterns_PLAN: "''PLAN'' \<in> set section_patterns"
  by (simp add: section_patterns_def)

lemma first_found_ex_recurring:
  "first_found (upper upper_latin1 ex_recurring)
     [py (newline # ''PLAN'' @ '':''), py (newline # ''PLAN'' @ [newline]),
      py (newline # ''PLAN'' @ '' '')] = Some (py (newline # ''PLAN'' @ '':''))"
  by code_simp

lemma leftmost_ex_recurring:
  "leftmost (upper upper_latin1 ex_recurring) (py (newline # ''PLAN'' @ '':'')) 7"
  by code_simp

lemma lower_priority_ex_recurring:
  "leftmost (upper upper_latin1 ex_recurring) (py (newline # ''PLAN'' @ '' '')) 0"
  by code_simp

theorem detect_sections_needle_priority_witness:
  "''PLAN'' \<in> set section_patterns \<and>
   leftmost (upper upper_latin1 ex_recurring) (py (newline # ''PLAN'' @ '' '')) 0 \<and>
   leftmost (upper upper_latin1 ex_recurring) (py (newline # ''PLAN'' @ '':'')) 7 \<and>
   map (\<lambda>s. (name s, startIndex s, detected s))
     (filter (\<lambda>s. name s = ''PLAN'') (detect_sections upper_latin1 ex_recurring)) =
   [(''PLAN'', 8, True)]"
proof -
  from detect_sections_needle_priority[OF section_patterns_PLAN, of upper_latin1 ex_recurring]
  have "\<exists>k. leftmost (upper upper_latin1 ex_recurring) (py (newline # ''PLAN'' @ '':'')) k \<and>
     map (\<lambda>s. (name s, startIndex s, detected s))
       (filter (\<lambda>s. name s = ''PLAN'') (detect_sections upper_latin1 ex_recurring)) =
     [(''PLAN'', int k + 1, True)]"
    by (simp only: first_found_ex_recurring option.case)
  then show ?thesis
  proof (elim exE conjE)
    fix k
    assume k: "leftmost (upper upper_latin1 ex_recurring) (py (newline # ''PLAN'' @ '':'')) k"
      and m: "map (\<lambda>s. (name s, startIndex s, detected s))
       (filter (\<lambda>s. name s = ''PLAN'') (detect_sections upper_latin1 ex_recurring)) =
       [(''PLAN'', int k + 1, True)]"
    from k leftmost_ex_recurring have "k = 7" by (rule leftmost_unique)
    with m have "map (\<lambda>s. (name s, startIndex s, detected s))
       (filter (\<lambda>s. name s = ''PLAN'') (detect_sections upper_latin1 ex_recurring)) =
       [(''PLAN'', 8, True)]" by simp
    with section_patterns_PLAN leftmost_ex_recurring lower_priority_ex_recurring
    show ?thesis by (intro conjI)
  qed
qed

section \<open>The newline before a header\<close>

lemma probe_entry:
  "s \<in> set (probe tu p ns []) \<Longrightarrow>
   name s = p \<and> (\<exists>nd \<in> set ns. \<exists>k. startIndex s = int k + 1 \<and> occurs_at tu nd k)"
proof -
  assume s: "s \<in> set (probe tu p ns [])"
  then obtain nd where nd: "first_found tu ns = Some nd"
    and eq: "s = \<lparr>name = p, startIndex = str_find tu nd + 1, detected = True, endIndex = None\<rparr>"
    by (cases "first_found tu ns") (simp_all add: probe_first_found)
  from first_found_Some[OF nd] have mem: "nd \<in> set ns" and "found tu nd" by simp_all
  then have "str_find tu nd \<noteq> - 1" by (simp add: found_iff_str_find)
  from str_find_found[OF this] obtain k where
    "str_find tu nd = int k" "leftmost tu nd k" by blast
  with eq mem show ?thesis by (auto simp: leftmost_def)
qed

lemma scan_entry:
  "s \<in> set (scan tu ps []) \<Longrightarrow>
   \<exists>nd \<in> set (search_patterns (name s)). \<exists>k. startIndex s = int k + 1 \<and> occurs_at tu nd k"
proof (induction ps)
  case Nil
  then show ?case by simp
next
  case (Cons p ps)
  from Cons.prems have "s \<in> set (probe tu p (search_patterns p) []) \<or> s \<in> set (scan tu ps [])"
    by (simp add: scan_Cons del: scan.simps)
  then show ?case
  proof
    assume "s \<in> set (probe tu p (search_patterns p) [])"
    from probe_entry[OF this] show ?thesis by auto
  next
    assume "s \<in> set (scan tu ps [])"
    then show ?thesis by (rule Cons.IH)
  qed
qed

lemma add_end_index_entry:
  "s \<in> set (add_end_index n ss) \<Longrightarrow>
   \<exists>s' \<in> set ss. name s = name s' \<and> startIndex s = startIndex s'"
  by (induction n ss rule: add_end_index.induct) auto

lemma detect_sections_entry:
  assumes "s \<in> set (detect_sections up text)"
  shows "\<exists>nd \<in> set (search_patterns (name s)).
           \<exists>k. startIndex s = int k + 1 \<and> occurs_at (upper up text) nd k"
proof -
  from assms obtain s' where
    "s' \<in> set (sort_key startIndex (scan (upper up text) section_patterns []))"
    "name s = name s'" "startIndex s = startIndex s'"
    unfolding detect_sections_def Let_def using add_end_index_entry by blast
  then show ?thesis using scan_entry[of s' "upper up text" section_patterns] by simp
qed

lemma needle_occurrence:
  assumes "nd \<in> set (search_patterns p)" and "occurs_at tu nd k"
  shows "Suc k < length tu \<and> tu ! k = of_char newline \<and> occurs_at tu (py p) (Suc k)"
proof -
  from assms(1) obtain x where nd: "nd = of_char newline # py p @ [x]"
    by (auto simp: search_patterns_def py_def)
  from assms(2) obtain zs where d: "drop k tu = of_char newline # py p @ [x] @ zs"
    by (auto simp: occurs_at_prefix nd prefix_def)
  then have k: "k < length tu" by (metis drop_all list.distinct(1) not_le)
  from d k have n: "tu ! k = of_char newline"
    by (metis Cons_nth_drop_Suc list.inject)
  from d k have d': "drop (Suc k) tu = py p @ [x] @ zs"
    by (metis Cons_nth_drop_Suc list.inject)
  then have "Suc k < length tu"
    by (metis append_is_Nil_conv drop_all list.distinct(1) not_le)
  moreover from d' have "occurs_at tu (py p) (Suc k)"
    by (simp add: occurs_at_prefix)
  ultimately show ?thesis using n by simp
qed

lemma detect_sections_entry_newline:
  assumes "s \<in> set (detect_sections up text)"
  shows "1 \<le> startIndex s \<and> nat (startIndex s) < length (upper up text) \<and>
      upper up text ! (nat (startIndex s) - 1) = of_char newline \<and>
      occurs_at (upper up text) (py (name s)) (nat (startIndex s))"
proof -
  from detect_sections_entry[OF assms] obtain nd k where
    nd: "nd \<in> set (search_patterns (name s))" and k: "startIndex s = int k + 1"
    and occ: "occurs_at (upper up text) nd k" by blast
  from needle_occurrence[OF nd occ] k show ?thesis
    by (simp add: nat_add_distrib)
qed

text \<open>
  C7: every span starts right after a newline of the upper-cased text, at the header it
  is named after; so a header that occurs in the upper-cased text at position 0 only
  (nowhere from index 1 on) is never matched.
\<close>

theorem header_needs_preceding_newline:
  "(\<forall>s \<in> set (detect_sections up text).
      1 \<le> startIndex s \<and> nat (startIndex s) < length (upper up text) \<and>
      upper up text ! (nat (startIndex s) - 1) = of_char newline \<and>
      occurs_at (upper up text) (py (name s)) (nat (startIndex s))) \<and>
   ((\<forall>k \<in> {1..length (upper up text)}. \<not> occurs_at (upper up text) (py header) k) \<longrightarrow>
      header \<notin> name ` set (detect_sections up text))"
proof -
  have 2: "header \<notin> name ` set (detect_sections up text)"
    if h: "\<forall>k \<in> {1..length (upper up text)}. \<not> occurs_at (upper up text) (py header) k"
  proof
    assume "header \<in> name ` set (detect_sections up text)"
    then obtain s where s: "s \<in> set (detect_sections up text)" "name s = header" by auto
    from detect_sections_entry_newline[OF s(1)] s(2)
    have "nat (startIndex s) \<in> {1..length (upper up text)}"
      "occurs_at (upper up text) (py header) (nat (startIndex s))" by auto
    with h show False by blast
  qed
  from detect_sections_entry_newline[of _ up "text"] 2 show ?thesis by blast
qed

lemma detect_sections_ex_position0:
  "detect_sections upper_latin1 ex_position0 =
     [\<lparr>name = ''LABS'', startIndex = 8, detected = True, endIndex = Some 15\<rparr>]"
  by code_simp

lemma absent_after_0:
  assumes "str_find (drop 1 s) sub = - 1"
  shows "\<forall>k \<in> {1..length s}. \<not> occurs_at s sub k"
proof
  fix k assume "k \<in> {1..length s}"
  then obtain j where k: "k = Suc j" by (cases k) auto
  from assms have "\<not> prefix sub (drop j (drop 1 s))"
    unfolding str_find_def by (rule find_from_absent) simp
  then show "\<not> occurs_at s sub k" by (simp add: occurs_at_prefix k)
qed

lemma no_PLAN_after_0:
  "str_find (drop 1 (upper upper_latin1 ex_position0)) (py ''PLAN'') = - 1"
  by code_simp

lemma PLAN_only_at_0:
  "\<forall>k \<in> {1..length (upper upper_latin1 ex_position0)}.
     \<not> occurs_at (upper upper_latin1 ex_position0) (py ''PLAN'') k"
  using no_PLAN_after_0 by (rule absent_after_0)

lemma PLAN_at_0: "occurs_at (upper upper_latin1 ex_position0) (py ''PLAN'') 0"
  by code_simp

lemma labs_span_mem: "labs_span \<in> set (detect_sections upper_latin1 ex_position0)"
  by (simp only: detect_sections_ex_position0 labs_span_def list.set insertI1)

lemma labs_span_fields:
  "nat (startIndex labs_span) = 8" "name labs_span = ''LABS''" "(8::nat) - 1 = 7"
  by (simp_all add: labs_span_def)

theorem header_needs_preceding_newline_witness:
  "occurs_at (upper upper_latin1 ex_position0) (py ''PLAN'') 0 \<and>
   ''PLAN'' \<notin> name ` set (detect_sections upper_latin1 ex_position0) \<and>
   upper upper_latin1 ex_position0 ! 7 = of_char newline \<and>
   occurs_at (upper upper_latin1 ex_position0) (py ''LABS'') 8"
proof -
  note T = header_needs_preceding_newline[of upper_latin1 ex_position0 "''PLAN''"]
  from T have "(\<forall>k \<in> {1..length (upper upper_latin1 ex_position0)}.
       \<not> occurs_at (upper upper_latin1 ex_position0) (py ''PLAN'') k) \<longrightarrow>
     ''PLAN'' \<notin> name ` set (detect_sections upper_latin1 ex_position0)"
    by (rule conjunct2)
  from this PLAN_only_at_0
  have a: "''PLAN'' \<notin> name ` set (detect_sections upper_latin1 ex_position0)" by (rule mp)
  from T have "\<forall>s \<in> set (detect_sections upper_latin1 ex_position0).
      1 \<le> startIndex s \<and> nat (startIndex s) < length (upper upper_latin1 ex_position0) \<and>
      upper upper_latin1 ex_position0 ! (nat (startIndex s) - 1) = of_char newline \<and>
      occurs_at (upper upper_latin1 ex_position0) (py (name s)) (nat (startIndex s))"
    by (rule conjunct1)
  from this labs_span_mem
  have inst: "1 \<le> startIndex labs_span \<and>
      nat (startIndex labs_span) < length (upper upper_latin1 ex_position0) \<and>
      upper upper_latin1 ex_position0 ! (nat (startIndex labs_span) - 1) = of_char newline \<and>
      occurs_at (upper upper_latin1 ex_position0) (py (name labs_span)) (nat (startIndex labs_span))"
    by (rule bspec)
  then have b: "upper upper_latin1 ex_position0 ! 7 = of_char newline"
    and c: "occurs_at (upper upper_latin1 ex_position0) (py ''LABS'') 8"
    by (simp_all only: labs_span_fields)
  show ?thesis
    apply (rule conjI, rule PLAN_at_0)
    apply (rule conjI, rule a)
    apply (rule conjI, rule b)
    apply (rule c)
    done
qed

section \<open>Span bounds\<close>

text \<open>
  C10: the bounds \<open>1 \<le> startIndex \<le> endIndex \<le> len(text)\<close> do not hold for every text.
  The indices are found in the upper-cased text and the last \<open>endIndex\<close> is the length of
  the original text; upper-casing a sharp s gives two letters, so after six of them the
  header of this text is found at index 13 of a text of length 12, and the span ends
  before it starts.
\<close>

theorem detect_sections_sharp_s:
  "length ex_sharp_s = 12 \<and>
   detect_sections upper_latin1 ex_sharp_s =
     [\<lparr>name = ''PLAN'', startIndex = 13, detected = True, endIndex = Some 12\<rparr>]"
  by code_simp

text \<open>
  When upper-casing keeps the length of the text (one code point for each code point),
  the bounds hold.
\<close>

lemma length_upper:
  "\<forall>c. length (up c) = 1 \<Longrightarrow> length (upper up s) = length s"
  by (induction s) (simp_all add: upper_def)

lemma add_end_index_bounds:
  "sorted (map startIndex ss) \<Longrightarrow> \<forall>s \<in> set ss. startIndex s \<le> n \<Longrightarrow>
   \<forall>s \<in> set (add_end_index n ss).
     \<exists>e. endIndex s = Some e \<and> startIndex s \<le> e \<and> e \<le> n"
  by (induction n ss rule: add_end_index.induct) auto

lemma detect_sections_bounds_when_upper_keeps_length:
  assumes "\<forall>c. length (up c) = 1" and "s \<in> set (detect_sections up text)"
  shows "1 \<le> startIndex s \<and>
         (\<exists>e. endIndex s = Some e \<and> startIndex s \<le> e \<and> e \<le> int (length text))"
proof -
  define ss where "ss = sort_key startIndex (scan (upper up text) section_patterns [])"
  have ds: "detect_sections up text = add_end_index (int (length text)) ss"
    by (simp add: detect_sections_def ss_def Let_def)
  have len: "length (upper up text) = length text" using assms(1) by (rule length_upper)
  have "\<forall>t \<in> set ss. startIndex t \<le> int (length text)"
  proof
    fix t assume "t \<in> set ss"
    then have "t \<in> set (scan (upper up text) section_patterns [])" by (simp add: ss_def)
    from scan_entry[OF this] obtain nd k where
      nd: "nd \<in> set (search_patterns (name t))" and k: "startIndex t = int k + 1"
      and occ: "occurs_at (upper up text) nd k" by blast
    from needle_occurrence[OF nd occ] k len show "startIndex t \<le> int (length text)" by simp
  qed
  moreover have "sorted (map startIndex ss)" by (simp add: ss_def)
  ultimately have "\<forall>s \<in> set (add_end_index (int (length text)) ss).
     \<exists>e. endIndex s = Some e \<and> startIndex s \<le> e \<and> e \<le> int (length text)"
    by (intro add_end_index_bounds)
  with assms(2) ds detect_sections_entry_newline[OF assms(2)] show ?thesis by simp
qed

section \<open>The primary pipeline: metadata\<close>

lemma handle_exception_fields [simp]:
  "metadata (handle_exception e r) = metadata r"
  "fulltext (handle_exception e r) = fulltext r"
  "contentHash (handle_exception e r) = contentHash r"
  "pageCount (handle_exception e r) = pageCount r"
  "tables (handle_exception e r) = tables r"
  "sections (handle_exception e r) = sections r"
  "parsedAt (handle_exception e r) = parsedAt r"
  "success (handle_exception e r) = False"
  by (cases e; simp)+

lemma handle_exception_warnings:
  "warnings (handle_exception e r) =
     warnings r @ [(case e of FileDataError m \<Rightarrow> py ''PDF parsing error: '' @ m
                    | OtherException m \<Rightarrow> py ''Unexpected error: '' @ m)]"
  by (cases e) simp_all

lemma parse_pdf_metadata:
  "fitz_open rt path = Inr doc \<Longrightarrow>
   metadata (fst (parse_pdf rt path)) =
     (case doc_metadata doc of
        None \<Rightarrow> []
      | Some md \<Rightarrow>
          if md \<noteq> [] then map (\<lambda>k. (k, JStr (dict_get md k []))) metadata_keys else [])"
  by (cases "doc_close doc")
     (auto simp: parse_pdf_def try_block_def initial_result_def Let_def
       split: sum.splits option.splits prod.splits)

text \<open>
  C5, as amended: in every run in which the document was opened, the returned metadata
  is the empty mapping when the document's metadata is \<open>None\<close> or empty; otherwise its
  keys are exactly title, author, subject, creator, producer, creationDate and modDate,
  in this order, each mapped to the string found upstream under that key, or to the
  empty string when the key is absent upstream.
\<close>

theorem parse_pdf_metadata_keys:
  "fitz_open rt path = Inr doc \<Longrightarrow>
   (case doc_metadata doc of
      None \<Rightarrow> metadata (fst (parse_pdf rt path)) = []
    | Some md \<Rightarrow>
        if md = [] then metadata (fst (parse_pdf rt path)) = []
        else map fst (metadata (fst (parse_pdf rt path))) =
               [''title'', ''author'', ''subject'', ''creator'', ''producer'',
                ''creationDate'', ''modDate''] \<and>
             map snd (metadata (fst (parse_pdf rt path))) =
               map (\<lambda>k. JStr (case map_of md (py k) of Some v \<Rightarrow> v | None \<Rightarrow> []))
                 [''title'', ''author'', ''subject'', ''creator'', ''producer'',
                  ''creationDate'', ''modDate''])"
  by (simp add: parse_pdf_metadata metadata_keys_def dict_get_def split: option.splits)

lemma fitz_open_example [simp]: "fitz_open (example_runtime doc) path = Inr doc"
  by (simp add: example_runtime_def)

theorem parse_pdf_metadata_keys_witness:
  "map fst (metadata (fst (parse_pdf (example_runtime doc_with_title) []))) =
     [''title'', ''author'', ''subject'', ''creator'', ''producer'',
      ''creationDate'', ''modDate''] \<and>
   map snd (metadata (fst (parse_pdf (example_runtime doc_with_title) []))) =
     [JStr (py ''Note''), JStr [], JStr [], JStr [], JStr [], JStr [], JStr []]"
proof -
  have md: "doc_metadata doc_with_title =
      Some [(py ''format'', py ''PDF 1.7''), (py ''title'', py ''Note'')]"
    by (simp add: doc_with_title_def)
  have ne: "[(py ''format'', py ''PDF 1.7''), (py ''title'', py ''Note'')] \<noteq> []" by simp
  have vals: "map (\<lambda>k. JStr (case map_of [(py ''format'', py ''PDF 1.7''), (py ''title'', py ''Note'')] (py k)
                 of Some v \<Rightarrow> v | None \<Rightarrow> []))
       [''title'', ''author'', ''subject'', ''creator'', ''producer'',
        ''creationDate'', ''modDate''] =
     [JStr (py ''Note''), JStr [], JStr [], JStr [], JStr [], JStr [], JStr []]"
    by code_simp
  from parse_pdf_metadata_keys[OF fitz_open_example, of doc_with_title "[]"]
  show ?thesis
    unfolding md option.case if_not_P[OF ne] vals .
qed

theorem parse_pdf_metadata_empty:
  "fitz_open (example_runtime doc_without_metadata) [] = Inr doc_without_metadata \<and>
   metadata (fst (parse_pdf (example_runtime doc_without_metadata) [])) = [] \<and>
   fst ` set (metadata (fst (parse_pdf (example_runtime doc_without_metadata) []))) \<noteq>
     {''title'', ''author'', ''subject'', ''creator'', ''producer'',
      ''creationDate'', ''modDate''}"
proof -
  have "metadata (fst (parse_pdf (example_runtime doc_without_metadata) [])) = []"
    by (simp add: parse_pdf_metadata[OF fitz_open_example] doc_without_metadata_def)
  then show ?thesis by simp
qed

section \<open>The primary pipeline: content hash\<close>

lemma compute_hash_Inr:
  "compute_hash rt s = Inr h \<longleftrightarrow> (\<exists>bs. utf8_encode s = Some bs \<and> h = sha256_hexdigest rt bs)"
  by (auto simp: compute_hash_def split: option.splits)

lemma compute_hash_Inl:
  "compute_hash rt s = Inl e \<Longrightarrow> utf8_encode s = None"
  by (auto simp: compute_hash_def split: option.splits)

lemma parse_pdf_fulltext:
  "fitz_open rt path = Inr doc \<Longrightarrow>
   page_loop (doc_pages doc) 0 [] [] = Inr (all_text, all_tables) \<Longrightarrow>
   fulltext (fst (parse_pdf rt path)) = join (py [newline, newline]) all_text"
  by (cases "doc_close doc")
     (simp_all add: parse_pdf_def try_block_def initial_result_def Let_def
        split: option.splits sum.splits)

lemma parse_pdf_hash_failed:
  "fitz_open rt path = Inr doc \<Longrightarrow>
   page_loop (doc_pages doc) 0 [] [] = Inr (all_text, all_tables) \<Longrightarrow>
   utf8_encode (join (py [newline, newline]) all_text) = None \<Longrightarrow>
   contentHash (fst (parse_pdf rt path)) = [] \<and> \<not> success (fst (parse_pdf rt path)) \<and>
   snd (parse_pdf rt path) = StillOpen"
  by (simp add: parse_pdf_def try_block_def initial_result_def Let_def compute_hash_def
        split: option.splits sum.splits)

lemma parse_pdf_hashed:
  "fitz_open rt path = Inr doc \<Longrightarrow>
   page_loop (doc_pages doc) 0 [] [] = Inr (all_text, all_tables) \<Longrightarrow>
   utf8_encode (join (py [newline, newline]) all_text) = Some bs \<Longrightarrow>
   contentHash (fst (parse_pdf rt path)) = sha256_hexdigest rt bs \<and>
   success (fst (parse_pdf rt path)) = (doc_close doc = None)"
  by (cases "doc_close doc")
     (simp_all add: parse_pdf_def try_block_def initial_result_def Let_def compute_hash_def
        split: option.splits sum.splits)

lemma parse_pdf_no_text:
  "(\<exists>e. fitz_open rt path = Inl e) \<or>
   (\<exists>doc e. fitz_open rt path = Inr doc \<and> page_loop (doc_pages doc) 0 [] [] = Inl e) \<Longrightarrow>
   fulltext (fst (parse_pdf rt path)) = [] \<and> contentHash (fst (parse_pdf rt path)) = [] \<and>
   \<not> success (fst (parse_pdf rt path))"
  by (auto simp: parse_pdf_def try_block_def initial_result_def Let_def
        split: option.splits)

text \<open>
  C3, as amended. In a run that opened the document and took the text of every page, the
  returned text is the joined text and \<open>contentHash\<close> is the digest of its UTF-8
  encoding, also when the text is empty (the digest of the empty byte string then, not
  the empty string); if the text has no UTF-8 encoding, \<open>contentHash\<close> is the empty
  string. In a run in which the document could not be opened or the text extraction of a
  page raised, the text and \<open>contentHash\<close> are both empty. So whenever the returned text
  is not empty and has a UTF-8 encoding, \<open>contentHash\<close> is the digest of that encoding.
\<close>

theorem parse_pdf_contentHash:
  "(fitz_open rt path = Inr doc \<and>
    page_loop (doc_pages doc) 0 [] [] = Inr (all_text, all_tables) \<longrightarrow>
      fulltext (fst (parse_pdf rt path)) = join (py [newline, newline]) all_text \<and>
      (case utf8_encode (fulltext (fst (parse_pdf rt path))) of
         Some bs \<Rightarrow> contentHash (fst (parse_pdf rt path)) = sha256_hexdigest rt bs
       | None \<Rightarrow> contentHash (fst (parse_pdf rt path)) = [])) \<and>
   ((\<exists>e. fitz_open rt path = Inl e) \<or>
    (\<exists>doc e. fitz_open rt path = Inr doc \<and> page_loop (doc_pages doc) 0 [] [] = Inl e) \<longrightarrow>
      fulltext (fst (parse_pdf rt path)) = [] \<and> contentHash (fst (parse_pdf rt path)) = []) \<and>
   (\<forall>bs. fulltext (fst (parse_pdf rt path)) \<noteq> [] \<longrightarrow>
      utf8_encode (fulltext (fst (parse_pdf rt path))) = Some bs \<longrightarrow>
      contentHash (fst (parse_pdf rt path)) = sha256_hexdigest rt bs)"
proof -
  have reached: "fulltext (fst (parse_pdf rt path)) = join (py [newline, newline]) a \<and>
      (case utf8_encode (fulltext (fst (parse_pdf rt path))) of
         Some bs \<Rightarrow> contentHash (fst (parse_pdf rt path)) = sha256_hexdigest rt bs
       | None \<Rightarrow> contentHash (fst (parse_pdf rt path)) = [])"
    if o: "fitz_open rt path = Inr d" and l: "page_loop (doc_pages d) 0 [] [] = Inr (a, b)"
    for d a b
  proof -
    have t: "fulltext (fst (parse_pdf rt path)) = join (py [newline, newline]) a"
      using o l by (rule parse_pdf_fulltext)
    show ?thesis
    proof (cases "utf8_encode (join (py [newline, newline]) a)")
      case None
      with parse_pdf_hash_failed[OF o l None] t show ?thesis by simp
    next
      case (Some bs)
      with parse_pdf_hashed[OF o l Some] t show ?thesis by simp
    qed
  qed
  have 1: "fitz_open rt path = Inr doc \<and>
    page_loop (doc_pages doc) 0 [] [] = Inr (all_text, all_tables) \<longrightarrow>
      fulltext (fst (parse_pdf rt path)) = join (py [newline, newline]) all_text \<and>
      (case utf8_encode (fulltext (fst (parse_pdf rt path))) of
         Some bs \<Rightarrow> contentHash (fst (parse_pdf rt path)) = sha256_hexdigest rt bs
       | None \<Rightarrow> contentHash (fst (parse_pdf rt path)) = [])"
    using reached by blast
  have 2: "(\<exists>e. fitz_open rt path = Inl e) \<or>
    (\<exists>doc e. fitz_open rt path = Inr doc \<and> page_loop (doc_pages doc) 0 [] [] = Inl e) \<longrightarrow>
      fulltext (fst (parse_pdf rt path)) = [] \<and> contentHash (fst (parse_pdf rt path)) = []"
    using parse_pdf_no_text[of rt path] by blast
  have 3: "contentHash (fst (parse_pdf rt path)) = sha256_hexdigest rt bs"
    if ne: "fulltext (fst (parse_pdf rt path)) \<noteq> []"
      and enc: "utf8_encode (fulltext (fst (parse_pdf rt path))) = Some bs" for bs
  proof (cases "fitz_open rt path")
    case (Inl e)
    then have "fulltext (fst (parse_pdf rt path)) = []"
      using parse_pdf_no_text[of rt path] by blast
    with ne show ?thesis by simp
  next
    case o: (Inr d)
    show ?thesis
    proof (cases "page_loop (doc_pages d) 0 [] []")
      case (Inl e)
      with o have "fulltext (fst (parse_pdf rt path)) = []"
        using parse_pdf_no_text[of rt path] by blast
      with ne show ?thesis by simp
    next
      case (Inr p)
      obtain a b where "p = (a, b)" by (cases p)
      with Inr have "page_loop (doc_pages d) 0 [] [] = Inr (a, b)" by simp
      from reached[OF o this] enc show ?thesis by simp
    qed
  qed
  from 1 2 3 show ?thesis by blast
qed

text \<open>
  The original claim fails at a document whose only page has no text: the run succeeds,
  the text is empty, and \<open>contentHash\<close> is the digest of the empty byte string.
\<close>

lemma page_loop_doc_blank: "page_loop (doc_pages doc_blank) 0 [] [] = Inr ([], [])"
  by (simp add: doc_blank_def text_page_def extract_tables_def)

lemma fitz_open_blank: "fitz_open (example_runtime doc_blank) [] = Inr doc_blank"
  by (rule fitz_open_example)

lemma utf8_encode_joined_nothing: "utf8_encode (join (py [newline, newline]) []) = Some []"
  by simp

lemma digest_blank:
  "sha256_hexdigest (example_runtime doc_blank) [] =
     py ''e3b0c44298fc1c149afbf4c8996fb92427ae41e4649b934ca495991b7852b855''"
  by (simp add: example_runtime_def example_digest_def)

theorem parse_pdf_blank_document:
  "success (fst (parse_pdf (example_runtime doc_blank) [])) \<and>
   fulltext (fst (parse_pdf (example_runtime doc_blank) [])) = [] \<and>
   contentHash (fst (parse_pdf (example_runtime doc_blank) [])) =
     py ''e3b0c44298fc1c149afbf4c8996fb92427ae41e4649b934ca495991b7852b855'' \<and>
   contentHash (fst (parse_pdf (example_runtime doc_blank) [])) \<noteq> []"
proof -
  note H = parse_pdf_hashed[OF fitz_open_blank page_loop_doc_blank utf8_encode_joined_nothing]
  have s: "success (fst (parse_pdf (example_runtime doc_blank) []))"
    using H by (simp add: doc_blank_def)
  have t: "fulltext (fst (parse_pdf (example_runtime doc_blank) [])) = []"
    using parse_pdf_fulltext[OF fitz_open_blank page_loop_doc_blank] by simp
  have h: "contentHash (fst (parse_pdf (example_runtime doc_blank) [])) =
     py ''e3b0c44298fc1c149afbf4c8996fb92427ae41e4649b934ca495991b7852b855''"
    using H[THEN conjunct1] by (simp only: digest_blank)
  have ne: "contentHash (fst (parse_pdf (example_runtime doc_blank) [])) \<noteq> []"
    unfolding h by (simp add: py_def)
  from s t h ne show ?thesis by - (intro conjI; assumption)
qed

text \<open>
  A text with a lone surrogate has no UTF-8 encoding: the text is returned and
  \<open>contentHash\<close> keeps its default.
\<close>

lemma page_marker_1: "page_marker (Suc 0) = py ''--- Page 1 ---''"
  by (simp add: page_marker_def str_nat.simps py_def)

lemma page_loop_doc_surrogate:
  "page_loop (doc_pages doc_surrogate) 0 [] [] =
     Inr ([py ''--- Page 1 ---'' @ [10, 55296]], [])"
  by (simp add: doc_surrogate_def text_page_def extract_tables_def page_marker_1 py_def
        newline_def)

lemma utf8_encode_surrogate: "utf8_encode (s @ [55296]) = None"
  by (induction s) (simp_all add: utf8_encode_char_def split: option.splits)

lemma utf8_encode_doc_surrogate:
  "utf8_encode (join (py [newline, newline]) [py ''--- Page 1 ---'' @ [10, 55296]]) = None"
  using utf8_encode_surrogate[of "py ''--- Page 1 ---'' @ [10]"] by simp

lemma parse_pdf_surrogate_text:
  "fulltext (fst (parse_pdf (example_runtime doc_surrogate) [])) \<noteq> [] \<and>
   utf8_encode (fulltext (fst (parse_pdf (example_runtime doc_surrogate) []))) = None \<and>
   contentHash (fst (parse_pdf (example_runtime doc_surrogate) [])) = []"
proof -
  have t: "fulltext (fst (parse_pdf (example_runtime doc_surrogate) [])) =
      join (py [newline, newline]) [py ''--- Page 1 ---'' @ [10, 55296]]"
    using fitz_open_example page_loop_doc_surrogate by (rule parse_pdf_fulltext)
  have h: "contentHash (fst (parse_pdf (example_runtime doc_surrogate) [])) = []"
    using parse_pdf_hash_failed[OF fitz_open_example page_loop_doc_surrogate
      utf8_encode_doc_surrogate] by (rule conjunct1)
  have ne: "join (py [newline, newline]) [py ''--- Page 1 ---'' @ [10, 55296]] \<noteq> []"
    by simp
  show ?thesis
    unfolding t using ne utf8_encode_doc_surrogate h by - (intro conjI; assumption)
qed

lemma page_loop_doc_with_title:
  "page_loop (doc_pages doc_with_title) 0 [] [] =
      Inr ([py ''--- Page 1 ---'' @ [10] @ py ''ok''], [])"
  by (simp add: doc_with_title_def text_page_def extract_tables_def page_marker_1 py_def
        newline_def)

lemma utf8_encode_ascii: "\<forall>c \<in> set s. c < 128 \<Longrightarrow> utf8_encode s = Some s"
  by (induction s) (simp_all add: utf8_encode_char_def)

lemma utf8_encode_doc_with_title:
  "utf8_encode (py ''--- Page 1 ---'' @ [10] @ py ''ok'') =
      Some (py ''--- Page 1 ---'' @ [10] @ py ''ok'')"
  by (rule utf8_encode_ascii) (simp add: py_def)

lemma page_loop_doc_failing_page:
  "page_loop (doc_pages doc_failing_page) 0 [] [] =
      Inl (OtherException (py ''cannot load page''))"
  by (simp add: doc_failing_page_def text_page_def extract_tables_def)

theorem parse_pdf_contentHash_witness:
  "fulltext (fst (parse_pdf (example_runtime doc_blank) [])) = [] \<and>
   contentHash (fst (parse_pdf (example_runtime doc_blank) [])) =
     py ''e3b0c44298fc1c149afbf4c8996fb92427ae41e4649b934ca495991b7852b855'' \<and>
   fulltext (fst (parse_pdf (example_runtime doc_with_title) [])) =
     py ''--- Page 1 ---'' @ [10] @ py ''ok'' \<and>
   contentHash (fst (parse_pdf (example_runtime doc_with_title) [])) =
     sha256_hexdigest (example_runtime doc_with_title)
       (py ''--- Page 1 ---'' @ [10] @ py ''ok'') \<and>
   fulltext (fst (parse_pdf (example_runtime doc_surrogate) [])) =
     py ''--- Page 1 ---'' @ [10, 55296] \<and>
   contentHash (fst (parse_pdf (example_runtime doc_surrogate) [])) = [] \<and>
   fulltext (fst (parse_pdf (example_runtime doc_failing_page) [])) = [] \<and>
   contentHash (fst (parse_pdf (example_runtime doc_failing_page) [])) = []"
proof -
  have "fitz_open (example_runtime doc_blank) [] = Inr doc_blank \<and>
      page_loop (doc_pages doc_blank) 0 [] [] = Inr ([], [])"
    using fitz_open_blank page_loop_doc_blank by (rule conjI)
  note B = parse_pdf_contentHash[of "example_runtime doc_blank" "[]" doc_blank "[]" "[]",
      THEN conjunct1, THEN mp, OF this]
  from B have b1: "fulltext (fst (parse_pdf (example_runtime doc_blank) [])) = []" by simp
  from B have b2: "contentHash (fst (parse_pdf (example_runtime doc_blank) [])) =
     py ''e3b0c44298fc1c149afbf4c8996fb92427ae41e4649b934ca495991b7852b855''"
    unfolding b1 by (simp add: digest_blank)
  have t: "fulltext (fst (parse_pdf (example_runtime doc_with_title) [])) =
      py ''--- Page 1 ---'' @ [10] @ py ''ok''"
    using parse_pdf_fulltext[OF fitz_open_example page_loop_doc_with_title] by simp
  have ne: "py ''--- Page 1 ---'' @ [10] @ py ''ok'' \<noteq> []" by simp
  note T1 = parse_pdf_contentHash[of "example_runtime doc_with_title" "[]",
      THEN conjunct2, THEN conjunct2, rule_format, unfolded t,
      OF ne utf8_encode_doc_with_title]
  have "fitz_open (example_runtime doc_surrogate) [] = Inr doc_surrogate \<and>
      page_loop (doc_pages doc_surrogate) 0 [] [] =
        Inr ([py ''--- Page 1 ---'' @ [10, 55296]], [])"
    using fitz_open_example page_loop_doc_surrogate by (rule conjI)
  note S = parse_pdf_contentHash[of "example_runtime doc_surrogate" "[]" doc_surrogate
      "[py ''--- Page 1 ---'' @ [10, 55296]]" "[]", THEN conjunct1, THEN mp, OF this]
  from S have s1: "fulltext (fst (parse_pdf (example_runtime doc_surrogate) [])) =
     py ''--- Page 1 ---'' @ [10, 55296]" by simp
  have enc: "utf8_encode (py ''--- Page 1 ---'' @ [10, 55296]) = None"
    using utf8_encode_doc_surrogate by simp
  from S have s2: "contentHash (fst (parse_pdf (example_runtime doc_surrogate) [])) = []"
    unfolding s1 enc by simp
  have "fitz_open (example_runtime doc_failing_page) [] = Inr doc_failing_page \<and>
      page_loop (doc_pages doc_failing_page) 0 [] [] = Inl (OtherException (py ''cannot load page''))"
    using fitz_open_example page_loop_doc_failing_page by (rule conjI)
  then have "\<exists>doc e. fitz_open (example_runtime doc_failing_page) [] = Inr doc \<and>
      page_loop (doc_pages doc) 0 [] [] = Inl e"
    by (intro exI)
  then have "(\<exists>e. fitz_open (example_runtime doc_failing_page) [] = Inl e) \<or>
    (\<exists>doc e. fitz_open (example_runtime doc_failing_page) [] = Inr doc \<and>
      page_loop (doc_pages doc) 0 [] [] = Inl e)" by (rule disjI2)
  note T3 = parse_pdf_contentHash[of "example_runtime doc_failing_page" "[]",
      THEN conjunct2, THEN conjunct1, THEN mp, OF this]
  from b1 b2 t T1 s1 s2 T3[THEN conjunct1] T3[THEN conjunct2]
  show ?thesis by - (intro conjI; assumption)
qed

section \<open>The primary pipeline: the document handle\<close>

text \<open>
  C4: the document handle is not closed on every exit path. \<open>close\<close> is called once,
  after the last stage; when the text extraction of a page or the hashing raises,
  \<open>parse_pdf\<close> returns through an \<open>except\<close> clause with the handle still open.
\<close>

theorem parse_pdf_leaves_handle_open:
  "fitz_open rt path = Inr doc \<Longrightarrow>
   page_loop (doc_pages doc) 0 [] [] = Inl e \<or>
   (page_loop (doc_pages doc) 0 [] [] = Inr (all_text, all_tables) \<and>
    compute_hash rt (join (py [newline, newline]) all_text) = Inl e) \<Longrightarrow>
   snd (parse_pdf rt path) = StillOpen \<and> \<not> success (fst (parse_pdf rt path))"
  by (auto simp: parse_pdf_def try_block_def initial_result_def Let_def
        split: option.splits)

theorem parse_pdf_leaves_handle_open_witness:
  "snd (parse_pdf (example_runtime doc_failing_page) []) = StillOpen \<and>
   \<not> success (fst (parse_pdf (example_runtime doc_failing_page) []))"
  using fitz_open_example disjI1[OF page_loop_doc_failing_page]
  by (rule parse_pdf_leaves_handle_open)

text \<open>A successful run has closed the handle.\<close>

lemma parse_pdf_closes_on_success:
  "fitz_open rt path = Inr doc \<Longrightarrow>
   success (fst (parse_pdf rt path)) \<Longrightarrow> snd (parse_pdf rt path) = Closed"
  by (cases "page_loop (doc_pages doc) 0 [] []"; cases "doc_close doc")
     (auto simp: parse_pdf_def try_block_def initial_result_def Let_def
        split: option.splits sum.splits prod.splits)

section \<open>The primary pipeline: warnings\<close>

text \<open>
  C8: in a run that completes extraction (the document opened, the text of every page
  taken, the hash computed) the warnings are, in this order: the low-content warning
  exactly when the stripped text has fewer than 100 characters; the large-document
  warning, which contains the page count, exactly when \<open>pageCount\<close> exceeds 100; and
  nothing else unless \<open>close\<close> raised. \<open>success\<close> does not depend on the two warnings: it
  is true exactly when nothing raised.
\<close>

theorem parse_pdf_warnings:
  "fitz_open rt path = Inr doc \<Longrightarrow>
   page_loop (doc_pages doc) 0 [] [] = Inr (all_text, all_tables) \<Longrightarrow>
   compute_hash rt (join (py [newline, newline]) all_text) = Inr h \<Longrightarrow>
   pageCount (fst (parse_pdf rt path)) = length (doc_pages doc) \<and>
   warnings (fst (parse_pdf rt path)) =
     (if length (strip (fulltext (fst (parse_pdf rt path)))) < 100
      then [py ''Document appears to have very little text content''] else []) @
     (if pageCount (fst (parse_pdf rt path)) > 100
      then [py ''Large document with '' @ str_nat (pageCount (fst (parse_pdf rt path))) @
            py '' pages'']
      else []) @
     (case doc_close doc of
        None \<Rightarrow> []
      | Some (FileDataError m) \<Rightarrow> [py ''PDF parsing error: '' @ m]
      | Some (OtherException m) \<Rightarrow> [py ''Unexpected error: '' @ m]) \<and>
   success (fst (parse_pdf rt path)) = (doc_close doc = None)"
  by (cases "doc_close doc")
     (simp_all add: parse_pdf_def try_block_def initial_result_def Let_def
        low_content_warning_def large_document_warning_def handle_exception_warnings
        split: option.splits exn.splits)

lemma page_loop_empty_pages:
  "page_loop (replicate n (text_page [])) k all_text all_tables = Inr (all_text, all_tables)"
  by (induction n arbitrary: k) (simp_all add: text_page_def extract_tables_def)

lemma str_nat_150: "str_nat 150 = py ''150''"
  by (simp add: str_nat.simps py_def)

lemma strip_unchanged:
  "s \<noteq> [] \<Longrightarrow> \<not> isspace (hd s) \<Longrightarrow> \<not> isspace (last s) \<Longrightarrow> strip s = s"
proof -
  assume ne: "s \<noteq> []" and h: "\<not> isspace (hd s)" and l: "\<not> isspace (last s)"
  from ne h have 1: "dropWhile isspace s = s" by (cases s) simp_all
  from ne l have "\<not> isspace (hd (rev s))" by (simp add: hd_rev)
  with ne have 2: "dropWhile isspace (rev s) = rev s" by (cases "rev s") simp_all
  show ?thesis by (simp add: strip_def 1 2)
qed

lemma page_loop_doc_long_page:
  "page_loop (doc_pages doc_long_page) 0 [] [] =
     Inr ([py ''--- Page 1 ---'' @ [10] @ replicate 100 97], [])"
  by (simp add: doc_long_page_def text_page_def extract_tables_def page_marker_1 py_def
        newline_def)

lemma utf8_encode_long_page:
  "utf8_encode (join (py [newline, newline]) [py ''--- Page 1 ---'' @ [10] @ replicate 100 97]) =
     Some (py ''--- Page 1 ---'' @ [10] @ replicate 100 97)"
  unfolding join.simps by (rule utf8_encode_ascii) (auto simp: py_def)

theorem parse_pdf_warnings_witness:
  "pageCount (fst (parse_pdf (example_runtime doc_150_pages) [])) = 150 \<and>
   warnings (fst (parse_pdf (example_runtime doc_150_pages) [])) =
     [py ''Document appears to have very little text content'',
      py ''Large document with 150 pages''] \<and>
   success (fst (parse_pdf (example_runtime doc_150_pages) [])) \<and>
   warnings (fst (parse_pdf (example_runtime doc_long_page) [])) = [] \<and>
   success (fst (parse_pdf (example_runtime doc_long_page) []))"
proof -
  have pl: "page_loop (doc_pages doc_150_pages) 0 [] [] = Inr ([], [])"
    by (simp add: doc_150_pages_def page_loop_empty_pages)
  have h: "compute_hash (example_runtime doc_150_pages) (join (py [newline, newline]) []) =
     Inr (example_digest [])"
    by (simp add: compute_hash_def example_runtime_def)
  have t: "fulltext (fst (parse_pdf (example_runtime doc_150_pages) [])) = []"
    using parse_pdf_fulltext[OF fitz_open_example[where path="[]"] pl] by simp
  have n: "length (doc_pages doc_150_pages) = 150" "doc_close doc_150_pages = None"
    by (simp_all add: doc_150_pages_def)
  note T = parse_pdf_warnings[OF fitz_open_example[where path="[]"] pl h]
  from T have c: "pageCount (fst (parse_pdf (example_runtime doc_150_pages) [])) = 150"
    by (simp only: n)
  from T have s: "success (fst (parse_pdf (example_runtime doc_150_pages) []))"
    by (simp only: n)
  from T have w: "warnings (fst (parse_pdf (example_runtime doc_150_pages) [])) =
     [py ''Document appears to have very little text content'',
      py ''Large document with 150 pages'']"
    unfolding t c n by (simp add: strip_def str_nat_150 py_def)
  have h2: "compute_hash (example_runtime doc_long_page)
      (join (py [newline, newline]) [py ''--- Page 1 ---'' @ [10] @ replicate 100 97]) =
     Inr (sha256_hexdigest (example_runtime doc_long_page)
       (py ''--- Page 1 ---'' @ [10] @ replicate 100 97))"
    unfolding compute_hash_def utf8_encode_long_page by simp
  have t2: "fulltext (fst (parse_pdf (example_runtime doc_long_page) [])) =
      py ''--- Page 1 ---'' @ [10] @ replicate 100 97"
    using parse_pdf_fulltext[OF fitz_open_example[where path="[]"] page_loop_doc_long_page]
    by simp
  have st: "strip (py ''--- Page 1 ---'' @ [10] @ replicate 100 97) =
      py ''--- Page 1 ---'' @ [10] @ replicate 100 97"
    by (rule strip_unchanged) (simp_all add: py_def isspace_def)
  have n2: "length (doc_pages doc_long_page) = 1" "doc_close doc_long_page = None"
    by (simp_all add: doc_long_page_def)
  note T2 = parse_pdf_warnings[OF fitz_open_example[where path="[]"] page_loop_doc_long_page h2]
  from T2 have c2: "pageCount (fst (parse_pdf (example_runtime doc_long_page) [])) = 1"
    by (simp only: n2)
  from T2 have s2: "success (fst (parse_pdf (example_runtime doc_long_page) []))"
    by (simp only: n2)
  from T2 have w2: "warnings (fst (parse_pdf (example_runtime doc_long_page) [])) = []"
    unfolding t2 c2 n2 st by simp
  from c w s w2 s2 show ?thesis by - (intro conjI; assumption)
qed

section \<open>The entry point: a missing input file\<close>

text \<open>
  C9, as amended: when the program is called with an input path and an output path and
  the input path does not exist, it exits with code 1; if the output path can be opened
  for writing, it writes there exactly the object with the keys success (false), error
  (\<open>Input file not found:\<close> and the path) and parsedAt, and nothing on the error stream;
  if the output path cannot be opened, nothing is written and the exception ends the
  process. Called with any other number of arguments, the program prints its usage,
  writes nothing and exits with code 1.
\<close>

theorem main_missing_input:
  "(length argv = 3 \<and> \<not> path_exists rt (argv ! 1) \<longrightarrow>
      exit_code (main rt argv) = 1 \<and>
      (case open_for_writing rt (argv ! 2) of
         None \<Rightarrow>
           written (main rt argv) =
             [(argv ! 2,
               JObject [(''success'', JBool False),
                        (''error'', JStr (py ''Input file not found: '' @ argv ! 1)),
                        (''parsedAt'', JStr (utcnow_isoformat rt @ py ''Z''))])] \<and>
           stderr (main rt argv) = []
       | Some e \<Rightarrow>
           written (main rt argv) = [] \<and> stderr (main rt argv) = [format_exc rt e])) \<and>
   (length argv \<noteq> 3 \<longrightarrow>
      exit_code (main rt argv) = 1 \<and> written (main rt argv) = [] \<and>
      stderr (main rt argv) = [py ''Usage: python parse.py <input_file> <output_file>''])"
  by (simp add: main_def write_json_def uncaught_def Let_def split: option.splits)

theorem main_missing_input_witness:
  "exit_code (main (example_runtime doc_blank) [py ''parse.py'', py ''in.pdf'', py ''out.json'']) = 1 \<and>
   written (main (example_runtime doc_blank) [py ''parse.py'', py ''in.pdf'', py ''out.json'']) =
     [(py ''out.json'',
       JObject [(''success'', JBool False),
                (''error'', JStr (py ''Input file not found: '' @ py ''in.pdf'')),
                (''parsedAt'', JStr (py ''2025-01-01T00:00:00'' @ py ''Z''))])] \<and>
   stderr (main (example_runtime doc_blank) [py ''parse.py'', py ''in.pdf'', py ''out.json'']) = []"
proof -
  have a: "length [py ''parse.py'', py ''in.pdf'', py ''out.json''] = 3" by simp
  have b: "\<not> path_exists (example_runtime doc_blank)
      ([py ''parse.py'', py ''in.pdf'', py ''out.json''] ! 1)"
    by (simp add: example_runtime_def)
  have c: "open_for_writing (example_runtime doc_blank) (py ''out.json'') = None"
    by (simp add: example_runtime_def)
  have d: "utcnow_isoformat (example_runtime doc_blank) = py ''2025-01-01T00:00:00''"
    by (simp add: example_runtime_def)
  have i: "[py ''parse.py'', py ''in.pdf'', py ''out.json''] ! 1 = py ''in.pdf''"
    "[py ''parse.py'', py ''in.pdf'', py ''out.json''] ! 2 = py ''out.json''" by simp_all
  from main_missing_input[THEN conjunct1, THEN mp, OF conjI[OF a b]] show ?thesis
    unfolding i c option.case d .
qed

text \<open>The original claim fails when the output path cannot be opened for writing.\<close>

theorem main_missing_input_unwritable:
  "length [py ''parse.py'', py ''in.pdf'', py ''out.json''] = 3 \<and>
   \<not> path_exists unwritable_runtime (py ''in.pdf'') \<and>
   written (main unwritable_runtime [py ''parse.py'', py ''in.pdf'', py ''out.json'']) = [] \<and>
   exit_code (main unwritable_runtime [py ''parse.py'', py ''in.pdf'', py ''out.json'']) = 1"
  by (simp add: main_def write_json_def uncaught_def Let_def unwritable_runtime_def
        example_runtime_def)

section \<open>The primary pipeline: page markers\<close>

lemma py_page: "py ''--- Page '' = [45, 45, 45, 32, 80, 97, 103, 101, 32]"
  by (simp add: py_def)

lemma py_dashes: "py '' ---'' = [32, 45, 45, 45]"
  by (simp add: py_def)

lemma py_newline: "py [newline] = [10]" "py [newline, newline] = [10, 10]"
  by (simp_all add: py_def newline_def)

lemma prefix_append_other:
  "c \<notin> set p \<Longrightarrow> prefix p (u @ c # y) = prefix p u"
proof (induction p arbitrary: u)
  case Nil
  then show ?case by simp
next
  case (Cons a p)
  then show ?case by (cases u) auto
qed

lemma takeWhile_append_stop:
  "\<not> P c \<Longrightarrow> takeWhile P (v @ c # y) = takeWhile P v"
  by (induction v) auto

lemma dropWhile_append_stop:
  "\<not> P c \<Longrightarrow> dropWhile P (v @ c # y) = dropWhile P v @ c # y"
  by (induction v) auto

lemma marker_at_append_newline: "marker_at (u @ 10 # y) = marker_at u"
proof (cases "prefix (py ''--- Page '') u")
  case False
  then show ?thesis
    by (simp add: marker_at_def prefix_append_other py_page)
next
  case True
  then have len: "9 \<le> length u" by (auto simp: py_page prefix_def)
  have nd: "\<not> is_digit 10" by (simp add: is_digit_def)
  from len have d: "drop 9 (u @ 10 # y) = drop 9 u @ 10 # y" by simp
  show ?thesis
    unfolding marker_at_def d takeWhile_append_stop[of is_digit 10, OF nd]
      dropWhile_append_stop[of is_digit 10, OF nd]
    by (simp add: prefix_append_other py_page py_dashes)
qed

lemma marker_at_Nil [simp]: "\<not> marker_at []"
  by (simp add: marker_at_def py_page)

lemma count_markers_append_newline:
  "count_markers (u @ 10 # y) = count_markers u + count_markers y"
proof (induction u)
  case Nil
  have "marker_at (10 # y) = marker_at []" using marker_at_append_newline[of "[]" y] by simp
  then show ?case by simp
next
  case (Cons c u)
  have "marker_at ((c # u) @ 10 # y) = marker_at (c # u)" by (rule marker_at_append_newline)
  with Cons show ?case by simp
qed

lemma count_markers_join:
  "count_markers (join [10, 10] bs) = sum_list (map count_markers bs)"
proof (induction "[10::nat, 10]" bs rule: join.induct)
  case (3 x y ys)
  have "count_markers (x @ 10 # 10 # join [10, 10] (y # ys)) =
        count_markers x + count_markers (10 # join [10, 10] (y # ys))"
    by (rule count_markers_append_newline)
  also have "count_markers (10 # join [10, 10] (y # ys)) =
        count_markers (join [10, 10] (y # ys))"
    using count_markers_append_newline[of "[]" "join [10, 10] (y # ys)"] by simp
  finally show ?case using 3 by simp
qed simp_all

lemma str_nat_digits: "str_nat n \<noteq> [] \<and> (\<forall>c \<in> set (str_nat n). is_digit c)"
proof (induction n rule: str_nat.induct)
  case (1 n)
  show ?case
  proof (cases "n < 10")
    case True
    then show ?thesis by (subst (1 2) str_nat.simps) (simp add: is_digit_def)
  next
    case False
    with 1 have ih: "\<forall>c \<in> set (str_nat (n div 10)). is_digit c" by simp
    have "n mod 10 < 10" by simp
    then have "is_digit (48 + n mod 10)" by (simp add: is_digit_def)
    with False ih show ?thesis by (subst (1 2) str_nat.simps) simp
  qed
qed

lemma count_markers_digits:
  "\<forall>c \<in> set ds. is_digit c \<Longrightarrow> count_markers (ds @ r) = count_markers r"
proof (induction ds)
  case Nil
  then show ?case by simp
next
  case (Cons d ds)
  then have "is_digit d" by simp
  then have "\<not> marker_at (d # ds @ r)"
    by (auto simp: marker_at_def py_page is_digit_def)
  with Cons show ?case by simp
qed

lemma marker_at_page_marker:
  assumes "ds \<noteq> []" and "\<forall>c \<in> set ds. is_digit c"
  shows "marker_at (py ''--- Page '' @ ds @ py '' ---'' @ r)"
proof -
  have nd: "\<not> is_digit 32" by (simp add: is_digit_def)
  have tw: "takeWhile is_digit (ds @ 32 # 45 # 45 # 45 # r) = ds"
    using assms(2) nd by (simp add: takeWhile_append_stop)
  have dw: "dropWhile is_digit (ds @ 32 # 45 # 45 # 45 # r) = 32 # 45 # 45 # 45 # r"
    using assms(2) nd by (simp add: dropWhile_append_stop)
  show ?thesis
    using assms(1) by (simp add: marker_at_def py_page py_dashes tw dw)
qed

lemma count_markers_page_marker:
  assumes "ds \<noteq> []" and "\<forall>c \<in> set ds. is_digit c"
  shows "count_markers (py ''--- Page '' @ ds @ py '' ---'') = 1"
proof -
  have m: "marker_at (45 # 45 # 45 # 32 # 80 # 97 # 103 # 101 # 32 # ds @ [32, 45, 45, 45])"
    using marker_at_page_marker[OF assms, of "[]"] by (simp add: py_page py_dashes)
  have t: "count_markers ([32, 45, 45, 45]) = 0"
    by (simp add: marker_at_def py_page)
  have "count_markers (ds @ [32, 45, 45, 45]) = 0"
    using count_markers_digits[OF assms(2), of "[32, 45, 45, 45]"] t by simp
  then show ?thesis using m
    by (simp add: py_page py_dashes marker_at_def[of "45 # 45 # 32 # _"]
          marker_at_def[of "45 # 32 # _"] marker_at_def[of "32 # _"] marker_at_def[of "80 # _"]
          marker_at_def[of "97 # _"] marker_at_def[of "103 # _"] marker_at_def[of "101 # _"])
qed

lemma page_loop_texts:
  "map get_text pages = map Inr texts \<Longrightarrow>
   \<exists>tabs. page_loop pages k acc tabs0 =
     Inr (acc @ map (\<lambda>(i, t). page_marker (i + 1) @ py [newline] @ t)
                  (filter (\<lambda>(i, t). t \<noteq> []) (enumerate k texts)), tabs)"
proof (induction pages arbitrary: k acc tabs0 texts)
  case Nil
  then show ?case by simp
next
  case (Cons pg pages)
  then obtain t ts where texts: "texts = t # ts" and g: "get_text pg = Inr t"
    and rest: "map get_text pages = map Inr ts" by (cases texts) auto
  let ?acc' = "if t \<noteq> [] then acc @ [page_marker (k + 1) @ py [newline] @ t] else acc"
  let ?tabs' = "tabs0 @ map (\<lambda>t. \<lparr>page = k + 1, data = t\<rparr>) (extract_tables pg)"
  from Cons.IH[OF rest, of "k + 1" ?acc' ?tabs'] obtain tabs where
    "page_loop pages (k + 1) ?acc' ?tabs' =
       Inr (?acc' @ map (\<lambda>(i, t). page_marker (i + 1) @ py [newline] @ t)
                  (filter (\<lambda>(i, t). t \<noteq> []) (enumerate (k + 1) ts)), tabs)"
    by blast
  then have "page_loop (pg # pages) k acc tabs0 =
     Inr (acc @ map (\<lambda>(i, t). page_marker (i + 1) @ py [newline] @ t)
                  (filter (\<lambda>(i, t). t \<noteq> []) (enumerate k texts)), tabs)"
    by (simp add: texts g)
  then show ?case by blast
qed

lemma parse_pdf_rendered:
  assumes "fitz_open rt path = Inr doc" and "map get_text (doc_pages doc) = map Inr texts"
  shows "fulltext (fst (parse_pdf rt path)) = join (py [newline, newline]) (rendered texts)"
proof -
  from page_loop_texts[OF assms(2), of 0 "[]" "[]"] obtain tabs where
    "page_loop (doc_pages doc) 0 [] [] =
       Inr (map (\<lambda>(i, t). page_marker (i + 1) @ py [newline] @ t)
              (filter (\<lambda>(i, t). t \<noteq> []) (enumerate 0 texts)), tabs)" by auto
  from parse_pdf_fulltext[OF assms(1) this] show ?thesis
    by (simp add: rendered_def page_marker_def)
qed

lemma length_rendered_from:
  "length (filter (\<lambda>(i, t). t \<noteq> []) (enumerate k texts)) =
   length (filter (\<lambda>t. t \<noteq> []) texts)"
  by (induction texts arbitrary: k) auto

lemma length_rendered: "length (rendered texts) = length (filter (\<lambda>t. t \<noteq> []) texts)"
  by (simp add: rendered_def length_rendered_from)

lemma count_markers_block:
  "count_markers (py ''--- Page '' @ str_nat n @ py '' ---'' @ py [newline] @ t) =
   1 + count_markers t"
proof -
  have "count_markers ((py ''--- Page '' @ str_nat n @ py '' ---'') @ 10 # t) =
      count_markers (py ''--- Page '' @ str_nat n @ py '' ---'') + count_markers t"
    by (rule count_markers_append_newline)
  also have "count_markers (py ''--- Page '' @ str_nat n @ py '' ---'') = 1"
    using str_nat_digits[of n] by (intro count_markers_page_marker) simp_all
  finally show ?thesis by (simp add: py_newline)
qed

lemma count_markers_rendered_from:
  "sum_list (map count_markers
     (map (\<lambda>(i, t). py ''--- Page '' @ str_nat (i + 1) @ py '' ---'' @ py [newline] @ t)
        (filter (\<lambda>(i, t). t \<noteq> []) (enumerate k texts)))) =
   length (filter (\<lambda>t. t \<noteq> []) texts) + sum_list (map count_markers texts)"
proof (induction texts arbitrary: k)
  case Nil
  then show ?case by simp
next
  case (Cons t ts)
  show ?case
  proof (cases "t = []")
    case True
    with Cons[of "Suc k"] show ?thesis by simp
  next
    case False
    with Cons[of "Suc k"] count_markers_block[of "k + 1" t] show ?thesis by simp
  qed
qed

lemma count_markers_rendered:
  "count_markers (join (py [newline, newline]) (rendered texts)) =
   length (filter (\<lambda>t. t \<noteq> []) texts) + sum_list (map count_markers texts)"
  unfolding py_newline count_markers_join
  unfolding rendered_def by (rule count_markers_rendered_from)

lemma page_loop_raises:
  "\<exists>p \<in> set pages. \<exists>e. get_text p = Inl e \<Longrightarrow>
   \<exists>e. page_loop pages k acc tabs = Inl e"
proof (induction pages arbitrary: k acc tabs)
  case Nil
  then show ?case by simp
next
  case (Cons pg pages)
  show ?case
  proof (cases "get_text pg")
    case (Inl e)
    then show ?thesis by simp
  next
    case (Inr t)
    with Cons.prems have "\<exists>p \<in> set pages. \<exists>e. get_text p = Inl e" by auto
    from Cons.IH[OF this] Inr show ?thesis by simp
  qed
qed

text \<open>
  C6, as amended: when the text of every page is extracted, the pages with empty text
  are skipped, every other page is rendered as its marker (with its position in the
  document, counted from 1, also after skipped pages), a newline and its text, and the
  rendered pages are joined with two newlines. The number of page markers in the final
  text is the number of pages with non-empty text plus the number of page markers inside
  the texts of the pages; so it is the number of pages with non-empty text whenever no
  page's text contains a page marker. When the text extraction of a page raises, the
  final text is empty.
\<close>

theorem parse_pdf_page_markers:
  "fitz_open rt path = Inr doc \<Longrightarrow>
   (map get_text (doc_pages doc) = map Inr texts \<longrightarrow>
      fulltext (fst (parse_pdf rt path)) = join (py [newline, newline]) (rendered texts) \<and>
      length (rendered texts) = length (filter (\<lambda>t. t \<noteq> []) texts) \<and>
      count_markers (fulltext (fst (parse_pdf rt path))) =
        length (filter (\<lambda>t. t \<noteq> []) texts) + sum_list (map count_markers texts) \<and>
      ((\<forall>t \<in> set texts. count_markers t = 0) \<longrightarrow>
         count_markers (fulltext (fst (parse_pdf rt path))) =
           length (filter (\<lambda>t. t \<noteq> []) texts))) \<and>
   ((\<exists>p \<in> set (doc_pages doc). \<exists>e. get_text p = Inl e) \<longrightarrow>
      fulltext (fst (parse_pdf rt path)) = [])"
proof -
  assume o: "fitz_open rt path = Inr doc"
  have 1: "fulltext (fst (parse_pdf rt path)) = join (py [newline, newline]) (rendered texts) \<and>
      length (rendered texts) = length (filter (\<lambda>t. t \<noteq> []) texts) \<and>
      count_markers (fulltext (fst (parse_pdf rt path))) =
        length (filter (\<lambda>t. t \<noteq> []) texts) + sum_list (map count_markers texts) \<and>
      ((\<forall>t \<in> set texts. count_markers t = 0) \<longrightarrow>
         count_markers (fulltext (fst (parse_pdf rt path))) =
           length (filter (\<lambda>t. t \<noteq> []) texts))"
    if g: "map get_text (doc_pages doc) = map Inr texts"
  proof -
    have t: "fulltext (fst (parse_pdf rt path)) = join (py [newline, newline]) (rendered texts)"
      using o g by (rule parse_pdf_rendered)
    have c: "count_markers (fulltext (fst (parse_pdf rt path))) =
       length (filter (\<lambda>t. t \<noteq> []) texts) + sum_list (map count_markers texts)"
      unfolding t by (rule count_markers_rendered)
    have "count_markers (fulltext (fst (parse_pdf rt path))) =
          length (filter (\<lambda>t. t \<noteq> []) texts)"
      if "\<forall>t \<in> set texts. count_markers t = 0"
    proof -
      from that have "sum_list (map count_markers texts) = 0" by simp
      with c show ?thesis by simp
    qed
    with t c length_rendered[of texts] show ?thesis by simp
  qed
  have 2: "fulltext (fst (parse_pdf rt path)) = []"
    if r: "\<exists>p \<in> set (doc_pages doc). \<exists>e. get_text p = Inl e"
  proof -
    from page_loop_raises[OF r, of 0 "[]" "[]"] obtain e where
      "page_loop (doc_pages doc) 0 [] [] = Inl e" by blast
    with o have "\<exists>doc e. fitz_open rt path = Inr doc \<and>
        page_loop (doc_pages doc) 0 [] [] = Inl e" by blast
    then show ?thesis using parse_pdf_no_text[of rt path] by blast
  qed
  from 1 2 show ?thesis by blast
qed

text \<open>
  The original claim fails for a page whose own text contains a page marker: one page
  with text, two markers in the final text.
\<close>

lemma get_text_doc_marker_in_text:
  "map get_text (doc_pages doc_marker_in_text) = map Inr [py ''--- Page 2 ---'']"
  by (simp add: doc_marker_in_text_def text_page_def)

lemma count_markers_page_2: "count_markers (py ''--- Page 2 ---'') = 1"
proof -
  have "py ''--- Page 2 ---'' = py ''--- Page '' @ [50] @ py '' ---''" by (simp add: py_def)
  moreover have "count_markers (py ''--- Page '' @ [50] @ py '' ---'') = 1"
    by (rule count_markers_page_marker) (simp_all add: is_digit_def)
  ultimately show ?thesis by simp
qed

theorem parse_pdf_marker_in_page_text:
  "map get_text (doc_pages doc_marker_in_text) = map Inr [py ''--- Page 2 ---''] \<and>
   length (filter (\<lambda>t. t \<noteq> []) [py ''--- Page 2 ---'']) = 1 \<and>
   fulltext (fst (parse_pdf (example_runtime doc_marker_in_text) [])) =
     py ''--- Page 1 ---'' @ [10] @ py ''--- Page 2 ---'' \<and>
   count_markers (fulltext (fst (parse_pdf (example_runtime doc_marker_in_text) []))) = 2"
proof -
  have ne: "length (filter (\<lambda>t. t \<noteq> []) [py ''--- Page 2 ---'']) = 1"
    by (simp add: py_def)
  have r: "rendered [py ''--- Page 2 ---''] =
      [py ''--- Page 1 ---'' @ [10] @ py ''--- Page 2 ---'']"
    by (simp add: rendered_def str_nat.simps py_def newline_def)
  have t: "fulltext (fst (parse_pdf (example_runtime doc_marker_in_text) [])) =
      join (py [newline, newline]) (rendered [py ''--- Page 2 ---''])"
    using fitz_open_example get_text_doc_marker_in_text by (rule parse_pdf_rendered)
  have t': "fulltext (fst (parse_pdf (example_runtime doc_marker_in_text) [])) =
     py ''--- Page 1 ---'' @ [10] @ py ''--- Page 2 ---''"
    unfolding t r by simp
  have "count_markers (fulltext (fst (parse_pdf (example_runtime doc_marker_in_text) []))) =
      length (filter (\<lambda>t. t \<noteq> []) [py ''--- Page 2 ---'']) +
      sum_list (map count_markers [py ''--- Page 2 ---''])"
    unfolding t by (rule count_markers_rendered)
  then have c: "count_markers (fulltext (fst (parse_pdf (example_runtime doc_marker_in_text) []))) = 2"
    unfolding ne by (simp add: count_markers_page_2)
  from get_text_doc_marker_in_text ne t' c show ?thesis by - (intro conjI; assumption)
qed

lemma get_text_doc_skipped_page:
  "map get_text (doc_pages doc_skipped_page) = map Inr [py ''a'', [], py ''b'']"
  by (simp add: doc_skipped_page_def text_page_def)

lemma rendered_skipped_page:
  "rendered [py ''a'', [], py ''b''] =
     [py ''--- Page 1 ---'' @ [10] @ py ''a'', py ''--- Page 3 ---'' @ [10] @ py ''b'']"
  by (simp add: rendered_def str_nat.simps py_def newline_def)

lemma no_markers_skipped_page: "\<forall>t \<in> set [py ''a'', [], py ''b'']. count_markers t = 0"
  by (simp add: py_def marker_at_def)

lemma raising_page_doc_failing_page:
  "\<exists>p \<in> set (doc_pages doc_failing_page). \<exists>e. get_text p = Inl e"
  by (simp add: doc_failing_page_def)

theorem parse_pdf_page_markers_witness:
  "fulltext (fst (parse_pdf (example_runtime doc_skipped_page) [])) =
     py ''--- Page 1 ---'' @ [10] @ py ''a'' @ [10, 10] @ py ''--- Page 3 ---'' @ [10] @ py ''b'' \<and>
   count_markers (fulltext (fst (parse_pdf (example_runtime doc_skipped_page) []))) = 2 \<and>
   fulltext (fst (parse_pdf (example_runtime doc_failing_page) [])) = []"
proof -
  note T = parse_pdf_page_markers[OF fitz_open_example[where path="[]"],
      of doc_skipped_page "[py ''a'', [], py ''b'']", THEN conjunct1, THEN mp,
      OF get_text_doc_skipped_page]
  from T have "fulltext (fst (parse_pdf (example_runtime doc_skipped_page) [])) =
      join (py [newline, newline]) (rendered [py ''a'', [], py ''b''])"
    by (rule conjunct1)
  then have a: "fulltext (fst (parse_pdf (example_runtime doc_skipped_page) [])) =
     py ''--- Page 1 ---'' @ [10] @ py ''a'' @ [10, 10] @ py ''--- Page 3 ---'' @ [10] @ py ''b''"
    unfolding rendered_skipped_page by (simp add: py_newline)
  from T have "(\<forall>t \<in> set [py ''a'', [], py ''b'']. count_markers t = 0) \<longrightarrow>
      count_markers (fulltext (fst (parse_pdf (example_runtime doc_skipped_page) []))) =
        length (filter (\<lambda>t. t \<noteq> []) [py ''a'', [], py ''b''])"
    by (elim conjE)
  from this no_markers_skipped_page
  have "count_markers (fulltext (fst (parse_pdf (example_runtime doc_skipped_page) []))) =
        length (filter (\<lambda>t. t \<noteq> []) [py ''a'', [], py ''b''])" by (rule mp)
  then have b: "count_markers (fulltext (fst (parse_pdf (example_runtime doc_skipped_page) []))) = 2"
    by (simp add: py_def)
  note c = parse_pdf_page_markers[OF fitz_open_example[where path="[]"],
      of doc_failing_page "[]", THEN conjunct2, THEN mp, OF raising_page_doc_failing_page]
  from a b c show ?thesis by - (intro conjI; assumption)
qed

end
